theory Spec2Isabelle
  imports Complex_Main "HOL-Library.AList"
begin

section \<open>Graph construction for 1D vascular networks (graph1d/generate_graphs.py)\<close>

text \<open>
  Shallow embedding of the graph-construction pipeline. Conventions:
  \<^item> a numpy float is a float64. The coordinates of a point are finite float64 numbers,
    given as the real numbers they are; a row of the \<open>points\<close> array is a triple. Where the
    outcome depends on rounding, overflow or underflow (the edge features, the distances of
    \<open>dijkstra_algorithm\<close>, the number of points that \<open>resample_points\<close> keeps) the arithmetic
    is that of float64: values of type \<open>float64\<close>, every operation rounded to the nearest
    float64. The edge lengths that \<open>resample_points\<close> compares and the relative positions of
    junction and boundary edges are computed on real numbers, without rounding; what is
    proved about them is which edge or row is chosen, given the lengths;
  \<^item> a point index is an \<^typ>\<open>int\<close>, as in Python, and reading an array at an index
    follows numpy: a negative index counts from the end, an index out of range raises;
  \<^item> every exception of the source is a value \<open>Inl e\<close> of the result type.
\<close>

subsection \<open>Errors, indexing, vectors\<close>

datatype error =
    IndexError
  | KeyError
  | ValueError
  | RuntimeError
  | OverflowError
  | DGLError
  | InfiniteDistance
    \<comment> \<open>the \<open>ValueError\<close> that \<open>dijkstra_algorithm\<close> raises: "Distance in Dijkstra is infinite"\<close>

type_synonym point = "real \<times> real \<times> real"

definition np_index :: "nat \<Rightarrow> int \<Rightarrow> nat option" where
  \<comment> \<open>numpy index normalisation on an axis of length \<open>n\<close>\<close>
  "np_index n i =
     (if 0 \<le> i \<and> i < int n then Some (nat i)
      else if - int n \<le> i \<and> i < 0 then Some (nat (int n + i))
      else None)"

definition np_get :: "'a list \<Rightarrow> int \<Rightarrow> error + 'a" where
  "np_get xs i = (case np_index (length xs) i of None \<Rightarrow> Inl IndexError | Some k \<Rightarrow> Inr (xs ! k))"

definition getitem :: "'a list \<Rightarrow> nat \<Rightarrow> error + 'a" where
  \<comment> \<open>\<open>xs[k]\<close> for a loop counter \<open>k \<ge> 0\<close>\<close>
  "getitem xs k = (if k < length xs then Inr (xs ! k) else Inl IndexError)"

definition vsub :: "point \<Rightarrow> point \<Rightarrow> point" where
  "vsub p q = (case p of (px, py, pz) \<Rightarrow> case q of (qx, qy, qz) \<Rightarrow> (px - qx, py - qy, pz - qz))"

definition vneg :: "point \<Rightarrow> point" where
  "vneg p = (case p of (px, py, pz) \<Rightarrow> (- px, - py, - pz))"

definition linalg_norm :: "point \<Rightarrow> real" where
  \<comment> \<open>the Euclidean norm of a row, without rounding\<close>
  "linalg_norm p = (case p of (px, py, pz) \<Rightarrow> sqrt (px * px + py * py + pz * pz))"

subsection \<open>float64 arithmetic\<close>

text \<open>
  A float64 is a finite number, an infinity or NaN. \<open>round64\<close> rounds a real number to the
  nearest number with a 53-bit significand, ties to the even significand; below \<open>2^-1022\<close>
  the spacing stays \<open>2^-1074\<close> (subnormal numbers). \<open>fl\<close> is IEEE 754 rounding: a rounded
  magnitude of \<open>2^1024\<close> or more is an infinity. The two zeros of float64 are one value here:
  they compare equal, and the only divisor in these functions, a norm, is never the
  negative zero.
\<close>

datatype float64 = Finite real | PosInf | NegInf | NaN

definition round_half_even :: "real \<Rightarrow> int" where
  "round_half_even y =
     (let n = \<lfloor>y\<rfloor>
      in if y - of_int n < 1 / 2 then n
         else if 1 / 2 < y - of_int n then n + 1
         else if even n then n else n + 1)"

definition float_exponent :: "real \<Rightarrow> int" where
  "float_exponent x = max (- 1022) \<lfloor>log 2 \<bar>x\<bar>\<rfloor>"

definition ulp :: "real \<Rightarrow> real" where
  \<comment> \<open>the spacing of the float64 numbers at the magnitude of \<open>x\<close>\<close>
  "ulp x = 2 powi (float_exponent x - 52)"

definition round64 :: "real \<Rightarrow> real" where
  "round64 x = of_int (round_half_even (x / ulp x)) * ulp x"

definition fl :: "real \<Rightarrow> float64" where
  "fl x = (let y = round64 x
          in if 2 ^ 1024 \<le> y then PosInf else if y \<le> - (2 ^ 1024) then NegInf else Finite y)"

fun fneg :: "float64 \<Rightarrow> float64" where
  "fneg (Finite a) = Finite (- a)"
| "fneg PosInf = NegInf"
| "fneg NegInf = PosInf"
| "fneg NaN = NaN"

fun fadd :: "float64 \<Rightarrow> float64 \<Rightarrow> float64" where
  "fadd (Finite a) (Finite b) = fl (a + b)"
| "fadd (Finite a) PosInf = PosInf"
| "fadd (Finite a) NegInf = NegInf"
| "fadd PosInf (Finite b) = PosInf"
| "fadd PosInf PosInf = PosInf"
| "fadd NegInf (Finite b) = NegInf"
| "fadd NegInf NegInf = NegInf"
| "fadd x y = NaN"

definition fsub :: "float64 \<Rightarrow> float64 \<Rightarrow> float64" where
  "fsub x y = fadd x (fneg y)"

definition signed_inf :: "bool \<Rightarrow> float64" where
  "signed_inf positive = (if positive then PosInf else NegInf)"

fun fmul :: "float64 \<Rightarrow> float64 \<Rightarrow> float64" where
  "fmul (Finite a) (Finite b) = fl (a * b)"
| "fmul (Finite a) PosInf = (if a = 0 then NaN else signed_inf (0 < a))"
| "fmul (Finite a) NegInf = (if a = 0 then NaN else signed_inf (a < 0))"
| "fmul PosInf (Finite b) = (if b = 0 then NaN else signed_inf (0 < b))"
| "fmul NegInf (Finite b) = (if b = 0 then NaN else signed_inf (b < 0))"
| "fmul PosInf PosInf = PosInf"
| "fmul NegInf NegInf = PosInf"
| "fmul PosInf NegInf = NegInf"
| "fmul NegInf PosInf = NegInf"
| "fmul x y = NaN"

fun fdiv :: "float64 \<Rightarrow> float64 \<Rightarrow> float64" where
  "fdiv (Finite a) (Finite b) =
     (if b = 0 then (if a = 0 then NaN else signed_inf (0 < a)) else fl (a / b))"
| "fdiv (Finite a) PosInf = Finite 0"
| "fdiv (Finite a) NegInf = Finite 0"
| "fdiv PosInf (Finite b) = signed_inf (0 \<le> b)"
| "fdiv NegInf (Finite b) = signed_inf (b < 0)"
| "fdiv x y = NaN"

fun fsqrt :: "float64 \<Rightarrow> float64" where
  "fsqrt (Finite a) = (if a < 0 then NaN else fl (sqrt a))"
| "fsqrt PosInf = PosInf"
| "fsqrt x = NaN"

type_synonym fpoint = "float64 \<times> float64 \<times> float64"

definition vsub64 :: "point \<Rightarrow> point \<Rightarrow> fpoint" where
  \<comment> \<open>the difference of two rows of \<open>points\<close>, whose entries are finite numbers\<close>
  "vsub64 p q =
     (case p of (px, py, pz) \<Rightarrow> case q of (qx, qy, qz) \<Rightarrow>
        (fsub (Finite px) (Finite qx), fsub (Finite py) (Finite qy), fsub (Finite pz) (Finite qz)))"

definition linalg_norm64 :: "fpoint \<Rightarrow> float64" where
  \<comment> \<open>\<open>np.linalg.norm(x)\<close> is \<open>sqrt(x.dot(x))\<close>; the three products are summed from the left\<close>
  "linalg_norm64 v =
     (case v of (x, y, z) \<Rightarrow> fsqrt (fadd (fadd (fmul x x) (fmul y y)) (fmul z z)))"

definition vdiv64 :: "fpoint \<Rightarrow> float64 \<Rightarrow> fpoint" where
  \<comment> \<open>\<open>diff / ndiff\<close>: numpy does not raise on a zero divisor, it warns and the quotient is
      an infinity or NaN\<close>
  "vdiv64 v s = (case v of (x, y, z) \<Rightarrow> (fdiv x s, fdiv y s, fdiv z s))"

definition at_least :: "real \<Rightarrow> float64 \<Rightarrow> bool" where
  \<comment> \<open>\<open>x >= c\<close> for a float64 \<open>x\<close>\<close>
  "at_least c x = (case x of Finite a \<Rightarrow> c \<le> a | PosInf \<Rightarrow> True | NegInf \<Rightarrow> False | NaN \<Rightarrow> False)"

definition is_finite :: "float64 \<Rightarrow> bool" where
  "is_finite x = (case x of Finite a \<Rightarrow> True | PosInf \<Rightarrow> False | NegInf \<Rightarrow> False | NaN \<Rightarrow> False)"

definition max_gap :: "point \<Rightarrow> point \<Rightarrow> real" where
  \<comment> \<open>the largest difference between two points in one coordinate\<close>
  "max_gap p q =
     (case p of (px, py, pz) \<Rightarrow> case q of (qx, qy, qz) \<Rightarrow>
        max \<bar>px - qx\<bar> (max \<bar>py - qy\<bar> \<bar>pz - qz\<bar>))"
subsection \<open>Loops with exceptions\<close>

fun for_loop :: "('s \<Rightarrow> 'a \<Rightarrow> error + 's) \<Rightarrow> 's \<Rightarrow> 'a list \<Rightarrow> error + 's" where
  \<comment> \<open>\<open>for x in xs: body\<close>, the loop's variables threaded as \<open>st\<close>; an exception leaves the loop\<close>
  "for_loop body st [] = Inr st"
| "for_loop body st (x # xs) =
     (case body st x of Inl e \<Rightarrow> Inl e | Inr st' \<Rightarrow> for_loop body st' xs)"


subsection \<open>generate_edge_features\<close>

fun edge_features_loop ::
  "point list \<Rightarrow> int list \<Rightarrow> int list \<Rightarrow> nat list \<Rightarrow> fpoint list \<Rightarrow> float64 list
     \<Rightarrow> error + (fpoint list \<times> float64 list)" where
  "edge_features_loop points edges1 edges2 [] rel_position rel_position_norm =
     Inr (rel_position, rel_position_norm)"
| "edge_features_loop points edges1 edges2 (i # rest) rel_position rel_position_norm =
     (case getitem edges2 i of Inl e \<Rightarrow> Inl e | Inr b \<Rightarrow>
      case np_get points b of Inl e \<Rightarrow> Inl e | Inr pb \<Rightarrow>
      case getitem edges1 i of Inl e \<Rightarrow> Inl e | Inr a \<Rightarrow>
      case np_get points a of Inl e \<Rightarrow> Inl e | Inr pa \<Rightarrow>
        (let diff = vsub64 pb pa; ndiff = linalg_norm64 diff
         in edge_features_loop points edges1 edges2 rest
              (rel_position @ [vdiv64 diff ndiff]) (rel_position_norm @ [ndiff])))"

definition generate_edge_features ::
  "point list \<Rightarrow> int list \<Rightarrow> int list \<Rightarrow> error + (fpoint list \<times> float64 list)" where
  "generate_edge_features points edges1 edges2 =
     edge_features_loop points edges1 edges2 [0 ..< length edges1] [] []"

definition joins_distinct :: "point list \<Rightarrow> int \<Rightarrow> int \<Rightarrow> bool" where
  \<comment> \<open>the edge \<open>a \<rightarrow> b\<close> joins two points of the array whose coordinates differ\<close>
  "joins_distinct points a b =
     (case np_get points a of Inl _ \<Rightarrow> False | Inr pa \<Rightarrow>
      case np_get points b of Inl _ \<Rightarrow> False | Inr pb \<Rightarrow> pa \<noteq> pb)"
subsection \<open>dijkstra_algorithm\<close>

text \<open>
  \<open>np.infty\<close> is the value \<open>PInf\<close>. An entry of \<open>dists\<close> is a finite number or \<open>PInf\<close>:
  the array starts as infinities and one zero, and \<open>dists[neib] = alt\<close> runs only after
  \<open>alt < dists[neib]\<close> was true, which it is not for an infinite \<open>alt\<close> or for NaN. The sum
  \<open>alt\<close> itself is a float64; it is never \<open>-inf\<close>, the norm being a sum of squares. The visit
  queue \<open>tovisit\<close> is a list of point numbers. The inner \<open>for\<close> loop that looks for the
  closest queued point starts from \<open>minindex = -1\<close>, written \<open>None\<close>; when no queued point
  has a finite distance it stays \<open>-1\<close>, and \<open>tovisit[-1]\<close>, \<open>np.delete(tovisit, -1)\<close> then
  take the last element of the queue.
\<close>

datatype xreal = Fin real | PInf

fun xless :: "xreal \<Rightarrow> xreal \<Rightarrow> bool" where
  "xless (Fin a) (Fin b) = (a < b)"
| "xless (Fin a) PInf = True"
| "xless PInf y = False"

definition f64 :: "xreal \<Rightarrow> float64" where
  "f64 d = (case d of Fin a \<Rightarrow> Finite a | PInf \<Rightarrow> PosInf)"

definition min_step :: "xreal list \<Rightarrow> nat list \<Rightarrow> nat option \<times> xreal \<Rightarrow> nat \<Rightarrow> nat option \<times> xreal" where
  "min_step dists tovisit st iinde =
     (case st of (minindex, minlen) \<Rightarrow>
        if xless (dists ! (tovisit ! iinde)) minlen
        then (Some iinde, dists ! (tovisit ! iinde))
        else (minindex, minlen))"

definition find_min :: "xreal list \<Rightarrow> nat list \<Rightarrow> nat option" where
  "find_min dists tovisit =
     fst (foldl (min_step dists tovisit) (None, PInf) [0 ..< length tovisit])"

definition np_delete1 :: "'a list \<Rightarrow> nat option \<Rightarrow> 'a list" where
  "np_delete1 xs minindex =
     (case minindex of None \<Rightarrow> butlast xs | Some i \<Rightarrow> take i xs @ drop (Suc i) xs)"

definition pick :: "'a list \<Rightarrow> nat option \<Rightarrow> 'a" where
  "pick xs minindex = (case minindex of None \<Rightarrow> last xs | Some i \<Rightarrow> xs ! i)"

definition relax :: "point list \<Rightarrow> nat list \<Rightarrow> nat \<Rightarrow> xreal list \<times> int list \<Rightarrow> int \<Rightarrow> xreal list \<times> int list" where
  "relax nodes tovisit curindex st neib =
     (case st of (dists, prevs) \<Rightarrow>
        if neib \<in> int ` set tovisit then
          (case fadd (f64 (dists ! curindex))
                  (linalg_norm64 (vsub64 (nodes ! curindex) (nodes ! nat neib))) of
             Finite alt \<Rightarrow>
               if xless (Fin alt) (dists ! nat neib)
               then (dists[nat neib := Fin alt], prevs[nat neib := int curindex])
               else (dists, prevs)
           | _ \<Rightarrow> (dists, prevs))
        else (dists, prevs))"

lemma find_min_lt_aux:
  "fst (foldl (min_step dists tovisit) st is) = Some i \<Longrightarrow> \<forall>j. fst st = Some j \<longrightarrow> j < n \<Longrightarrow> \<forall>k \<in> set is. k < n \<Longrightarrow> i < n"
  by (induction "is" arbitrary: st) (auto simp: min_step_def split: prod.splits if_splits)

lemma find_min_lt: "find_min dists tovisit = Some i \<Longrightarrow> i < length tovisit"
  unfolding find_min_def by (erule find_min_lt_aux) auto

lemma np_delete1_shorter: "xs \<noteq> [] \<Longrightarrow> find_min dists xs = m \<Longrightarrow> length (np_delete1 xs m) < length xs"
  by (cases m) (auto simp: np_delete1_def dest: find_min_lt)

function dijkstra_loop ::
  "point list \<Rightarrow> (int \<times> int) list \<Rightarrow> nat list \<Rightarrow> xreal list \<Rightarrow> int list \<Rightarrow> xreal list \<times> int list" where
  "dijkstra_loop nodes b_edges tovisit dists prevs =
     (if tovisit = [] then (dists, prevs)
      else
        (let minindex = find_min dists tovisit;
             curindex = pick tovisit minindex;
             tovisit' = np_delete1 tovisit minindex;
             inb = map snd (filter (\<lambda>e. fst e = int curindex) b_edges);
             st = foldl (relax nodes tovisit' curindex) (dists, prevs) inb
         in dijkstra_loop nodes b_edges tovisit' (fst st) (snd st)))"
  by pat_completeness auto
termination
  by (relation "measure (\<lambda>(nodes, b_edges, tovisit, dists, prevs). length tovisit)")
     (auto simp: np_delete1_shorter)

declare dijkstra_loop.simps [simp del]

text \<open>
  \<open>np.array([edges1,edges2]).transpose()\<close> needs two rows of the same length: on a
  ragged input numpy raises \<open>ValueError\<close>. \<open>dists[index] = 0\<close> follows numpy indexing.
\<close>

definition dijkstra_algorithm ::
  "point list \<Rightarrow> int list \<Rightarrow> int list \<Rightarrow> int \<Rightarrow> error + (xreal list \<times> int list)" where
  "dijkstra_algorithm nodes edges1 edges2 index =
     (let nnodes = length nodes;
          tovisit = [0 ..< nnodes];
          dists = replicate nnodes PInf;
          prevs = replicate nnodes (- 1)
      in if length edges1 \<noteq> length edges2 then Inl ValueError
         else case np_index nnodes index of None \<Rightarrow> Inl IndexError | Some s \<Rightarrow>
           (case dijkstra_loop nodes (zip edges1 edges2) tovisit (dists[s := Fin 0]) prevs of
              (dists', prevs') \<Rightarrow>
                if PInf \<in> set dists' then Inl InfiniteDistance else Inr (dists', prevs')))"

text \<open>The directed graph the algorithm walks: the edges between points of the array.\<close>

definition dijkstra_edges :: "nat \<Rightarrow> (int \<times> int) list \<Rightarrow> (nat \<times> nat) set" where
  "dijkstra_edges n b_edges = {(u, v). u < n \<and> v < n \<and> (int u, int v) \<in> set b_edges}"

definition short_edges :: "point list \<Rightarrow> (int \<times> int) list \<Rightarrow> int \<Rightarrow> bool" where
  \<comment> \<open>the float64 length of every edge of the graph is a finite number, at most \<open>2^k\<close>\<close>
  "short_edges nodes b_edges k \<longleftrightarrow>
     (\<forall>(u, v) \<in> dijkstra_edges (length nodes) b_edges.
        \<exists>w \<le> 2 powi k. linalg_norm64 (vsub64 (nodes ! u) (nodes ! v)) = Finite w)"
subsection \<open>create_junction_edges\<close>

text \<open>
  The dictionary \<open>juncts_inlets\<close> (junction id to inlet point) is an association list in
  insertion order, which is the order Python iterates it in. The two masks are lists of
  0 and 1. \<open>bif_id[ipoint - 1]\<close> at \<open>ipoint = 0\<close> reads \<open>bif_id[-1]\<close>, the last entry.
\<close>

record junction_scan =
  juncts_inlets :: "(int \<times> nat) list"
  jun_inlet_mask :: "nat list"
  jun_mask :: "nat list"
  jedges1 :: "nat list"
  jedges2 :: "nat list"

definition bif_prev :: "int list \<Rightarrow> nat \<Rightarrow> int" where
  "bif_prev bif_id ipoint = (if ipoint = 0 then last bif_id else bif_id ! (ipoint - 1))"

definition junction_step :: "int list \<Rightarrow> junction_scan \<Rightarrow> nat \<Rightarrow> error + junction_scan" where
  "junction_step bif_id st ipoint =
     (if (bif_id ! ipoint = - 1 \<and> bif_id ! (ipoint + 1) \<noteq> - 1)
         \<or> (ipoint = 0 \<and> bif_id ! ipoint \<noteq> - 1)
      then
        (if map_of (juncts_inlets st) (bif_id ! (ipoint + 1)) = None
         then Inr (st\<lparr>juncts_inlets := AList.update (bif_id ! (ipoint + 1)) ipoint (juncts_inlets st),
                      jun_inlet_mask := (jun_inlet_mask st)[ipoint := 1],
                      jun_mask := (jun_mask st)[ipoint := 1]\<rparr>)
         else Inr st)
      else if bif_id ! ipoint \<noteq> - 1 \<and> bif_prev bif_id ipoint \<noteq> - 1
              \<and> bif_prev bif_id ipoint \<noteq> bif_id ! ipoint
      then
        (case map_of (juncts_inlets st) (bif_prev bif_id ipoint) of
           None \<Rightarrow> Inl KeyError
         | Some jinlet \<Rightarrow>
             Inr (st\<lparr>juncts_inlets := AList.update (bif_id ! ipoint) jinlet (juncts_inlets st)\<rparr>))
      else if bif_id ! ipoint = - 1 \<and> bif_prev bif_id ipoint \<noteq> - 1
      then
        (case map_of (juncts_inlets st) (bif_prev bif_id ipoint) of
           None \<Rightarrow> Inl KeyError
         | Some jinlet \<Rightarrow>
             Inr (st\<lparr>jedges1 := jedges1 st @ [jinlet],
                      jedges2 := jedges2 st @ [ipoint],
                      jun_mask := (jun_mask st)[ipoint := 1]\<rparr>))
      else Inr st)"

definition scan_junctions :: "int list \<Rightarrow> error + junction_scan" where
  \<comment> \<open>the first loop of \<open>create_junction_edges\<close>, over \<open>range(npoints - 1)\<close>\<close>
  "scan_junctions bif_id =
     (let npoints = length bif_id
      in for_loop (junction_step bif_id)
           \<lparr>juncts_inlets = [], jun_inlet_mask = replicate npoints 0,
            jun_mask = replicate npoints 0, jedges1 = [], jedges2 = []\<rparr>
           [0 ..< npoints - 1])"

definition junction_dists_step ::
  "point list \<Rightarrow> int list \<Rightarrow> int list \<Rightarrow> (nat \<times> xreal list) list \<Rightarrow> int \<times> nat
     \<Rightarrow> error + (nat \<times> xreal list) list" where
  "junction_dists_step points edges1 edges2 dists entry =
     (case dijkstra_algorithm points edges1 edges2 (int (snd entry)) of
        Inl e \<Rightarrow> Inl e
      | Inr (d, prevs) \<Rightarrow> Inr (AList.update (snd entry) d dists))"

definition junction_feature_step ::
  "point list \<Rightarrow> (nat \<times> xreal list) list \<Rightarrow> nat list \<Rightarrow> nat list
     \<Rightarrow> point list \<times> xreal list \<Rightarrow> nat \<Rightarrow> error + (point list \<times> xreal list)" where
  "junction_feature_step points dists je1 je2 acc iedg =
     (case getitem je2 iedg of Inl e \<Rightarrow> Inl e | Inr b \<Rightarrow>
      case np_get points (int b) of Inl e \<Rightarrow> Inl e | Inr pb \<Rightarrow>
      case getitem je1 iedg of Inl e \<Rightarrow> Inl e | Inr a \<Rightarrow>
      case np_get points (int a) of Inl e \<Rightarrow> Inl e | Inr pa \<Rightarrow>
      case map_of dists a of None \<Rightarrow> Inl KeyError | Some d \<Rightarrow>
      case np_get d (int b) of Inl e \<Rightarrow> Inl e | Inr dval \<Rightarrow>
        Inr (fst acc @ [vsub pb pa], snd acc @ [dval]))"

type_synonym junction_edges =
  "nat list \<times> nat list \<times> point list \<times> xreal list \<times> nat list \<times> (nat list \<times> nat list)"

definition create_junction_edges ::
  "point list \<Rightarrow> int list \<Rightarrow> int list \<Rightarrow> int list \<Rightarrow> error + junction_edges" where
  "create_junction_edges points bif_id edges1 edges2 =
     (case scan_junctions bif_id of Inl e \<Rightarrow> Inl e | Inr st \<Rightarrow>
      case for_loop (junction_dists_step points edges1 edges2) [] (juncts_inlets st) of
        Inl e \<Rightarrow> Inl e
      | Inr dists \<Rightarrow>
      case for_loop (junction_feature_step points dists (jedges1 st) (jedges2 st)) ([], [])
             [0 ..< length (jedges1 st)] of
        Inl e \<Rightarrow> Inl e
      | Inr (jrel_position, jdistance) \<Rightarrow>
          Inr (jedges1 st @ jedges2 st, jedges2 st @ jedges1 st,
               jrel_position @ map vneg jrel_position, jdistance @ jdistance,
               replicate (length (jedges1 st @ jedges2 st)) 3,
               (jun_inlet_mask st, jun_mask st)))"

subsection \<open>add_fields\<close>

text \<open>
  The dictionary \<open>field\<close> (timestep key to the per-point values at that timestep) is an
  association list in insertion order; the keys are the numbers \<open>float(t)\<close>. A tensor of
  shape (points, 1, timesteps) is a list of rows, each holding one list of timestep values.
  The graph is its number of nodes and its node data; DGL refuses node data whose first
  dimension is not the number of nodes. Rounding to float32 is not modelled.
\<close>

type_synonym tensor3 = "real list list list"

record graph =
  num_nodes :: nat
  ndata :: "(string \<times> tensor3) list"

definition set_ndata :: "graph \<Rightarrow> string \<Rightarrow> tensor3 \<Rightarrow> error + graph" where
  \<comment> \<open>\<open>graph.ndata[name] = t\<close>\<close>
  "set_ndata g name t =
     (if length t = num_nodes g then Inr (g\<lparr>ndata := AList.update name t (ndata g)\<rparr>)
      else Inl DGLError)"

definition set_column :: "tensor3 \<Rightarrow> nat \<Rightarrow> real list \<Rightarrow> error + tensor3" where
  \<comment> \<open>\<open>field_t[:,0,k] = f\<close>: \<open>f\<close> has one value per row, or a single value that is broadcast\<close>
  "set_column field_t k f =
     (if length f = length field_t
      then Inr (map (\<lambda>(row, v). (row[0 := (row ! 0)[k := v]])) (zip field_t f))
      else if length f = 1
      then Inr (map (\<lambda>row. (row[0 := (row ! 0)[k := f ! 0]])) field_t)
      else Inl RuntimeError)"

definition fill_step ::
  "nat \<Rightarrow> tensor3 \<times> nat \<Rightarrow> real \<times> real list \<Rightarrow> error + (tensor3 \<times> nat)" where
  \<comment> \<open>the body of \<open>for t in field\<close>; \<open>entry\<close> is the key \<open>t\<close> with \<open>field[t]\<close>\<close>
  "fill_step offset st entry =
     (case st of (field_t, count) \<Rightarrow>
        if count \<ge> offset
        then (case set_column field_t (count - offset) (snd entry) of
                Inl e \<Rightarrow> Inl e
              | Inr field_t' \<Rightarrow> Inr (field_t', count + 1))
        else Inr (field_t, count + 1))"

definition subsample :: "nat \<Rightarrow> 'a list \<Rightarrow> 'a list" where
  \<comment> \<open>\<open>xs[::step]\<close> for \<open>step > 0\<close>\<close>
  "subsample step xs = map (\<lambda>k. xs ! (k * step)) [0 ..< (length xs + step - 1) div step]"

definition add_fields ::
  "graph \<Rightarrow> (real \<times> real list) list \<Rightarrow> string \<Rightarrow> nat \<Rightarrow> error + graph" where
  "add_fields g field field_name subsample_time =
     (let timesteps = sort (map fst field)
      in case getitem timesteps 1 of Inl e \<Rightarrow> Inl e | Inr t1 \<Rightarrow>
         case getitem timesteps 0 of Inl e \<Rightarrow> Inl e | Inr t0 \<Rightarrow>
         (let dt = (t1 - t0) * real subsample_time;
              offset = 0;
              npoints = length (snd (hd field));
              zeros = replicate npoints [replicate (length timesteps - offset) 0]
          in case for_loop (fill_step offset) (zeros, 0) field of
               Inl e \<Rightarrow> Inl e
             | Inr (field_t, count) \<Rightarrow>
                 if subsample_time = 0 then Inl ValueError
                 else (case set_ndata g field_name
                              (map (map (subsample subsample_time)) field_t) of
                         Inl e \<Rightarrow> Inl e
                       | Inr g' \<Rightarrow>
                           set_ndata g' ''dt'' (replicate (num_nodes g') [[dt]]))))"

subsection \<open>remove_points and resample_points\<close>

text \<open>
  \<open>indices\<close> is the dictionary with the keys \<open>'inlet'\<close> and \<open>'outlets'\<close>. The arrays
  \<open>edges1\<close>, \<open>edges2\<close> and the lists \<open>ipoints_to_delete\<close>, \<open>ipoints_to_replace\<close> are the
  variables that the loops of \<open>resample_points\<close> update; they are threaded as one tuple.
\<close>

record indices =
  inlet :: "int list"
  outlets :: "int list"

type_synonym collapse_state = "int list \<times> int list \<times> int list \<times> int list"

definition modify_edges :: "int list \<Rightarrow> int list \<Rightarrow> int \<Rightarrow> int \<Rightarrow> int list \<times> int list" where
  "modify_edges edges1 edges2 ipoint_to_delete ipoint_to_replace =
     (map (\<lambda>x. if x = ipoint_to_delete then ipoint_to_replace else x) edges1,
      map (\<lambda>x. if x = ipoint_to_delete then ipoint_to_replace else x) edges2)"

definition collapse :: "collapse_state \<Rightarrow> int \<Rightarrow> int \<Rightarrow> collapse_state" where
  \<comment> \<open>record the point to delete and its replacement, and rewrite the edges\<close>
  "collapse st d r =
     (case st of (edges1, edges2, ipoints_to_delete, ipoints_to_replace) \<Rightarrow>
        (case modify_edges edges1 edges2 d r of (edges1', edges2') \<Rightarrow>
           (edges1', edges2', ipoints_to_delete @ [d], ipoints_to_replace @ [r])))"

definition remove_caps_loop :: "nat \<Rightarrow> indices \<Rightarrow> collapse_state \<Rightarrow> collapse_state" where
  \<comment> \<open>\<open>for ip in range(remove_caps)\<close> with its two inner loops\<close>
  "remove_caps_loop remove_caps ind st =
     foldl (\<lambda>st ip.
        foldl (\<lambda>st outlet. collapse st (outlet - int ip) (outlet - int remove_caps))
          (foldl (\<lambda>st inl. collapse st (inl + int ip) (inl + int remove_caps)) st (inlet ind))
          (outlets ind))
       st [0 ..< remove_caps]"

fun gather :: "point list \<Rightarrow> int list \<Rightarrow> error + point list" where
  \<comment> \<open>\<open>points[idxs,:]\<close>\<close>
  "gather points [] = Inr []"
| "gather points (i # idxs) =
     (case np_get points i of Inl e \<Rightarrow> Inl e | Inr p \<Rightarrow>
      case gather points idxs of Inl e \<Rightarrow> Inl e | Inr ps \<Rightarrow> Inr (p # ps))"

definition edge_lengths :: "point list \<Rightarrow> int list \<Rightarrow> int list \<Rightarrow> error + xreal list" where
  \<comment> \<open>\<open>diff\<close> after \<open>diff[np.where(diff < 1e-13)[0]] = np.inf\<close>; arrays of different lengths
      cannot be subtracted\<close>
  "edge_lengths points edges1 edges2 =
     (case gather points edges1 of Inl e \<Rightarrow> Inl e | Inr ps1 \<Rightarrow>
      case gather points edges2 of Inl e \<Rightarrow> Inl e | Inr ps2 \<Rightarrow>
        if length ps1 \<noteq> length ps2 then Inl ValueError
        else Inr (map (\<lambda>(p1, p2).
                     let d = linalg_norm (vsub p1 p2)
                     in if d < 1 / 10 ^ 13 then PInf else Fin d) (zip ps1 ps2)))"

definition xmin :: "xreal \<Rightarrow> xreal \<Rightarrow> xreal" where
  "xmin a b = (if xless b a then b else a)"

definition np_min :: "xreal list \<Rightarrow> error + xreal" where
  "np_min xs = (case xs of [] \<Rightarrow> Inl ValueError | x # rest \<Rightarrow> Inr (foldl xmin x rest))"

fun close_to :: "xreal \<Rightarrow> xreal \<Rightarrow> bool" where
  \<comment> \<open>\<open>np.abs(x - m) < 1e-12\<close>; false as soon as one side is infinite\<close>
  "close_to (Fin a) (Fin b) = (\<bar>a - b\<bar> < 1 / 10 ^ 12)"
| "close_to x y = False"

definition first_where :: "(nat \<Rightarrow> bool) \<Rightarrow> nat \<Rightarrow> error + nat" where
  \<comment> \<open>\<open>np.where(cond)[0][0]\<close> over positions below \<open>n\<close>\<close>
  "first_where cond n = (case List.find cond [0 ..< n] of None \<Rightarrow> Inl IndexError | Some k \<Rightarrow> Inr k)"

definition decimate_step ::
  "point list \<Rightarrow> int list \<Rightarrow> collapse_state \<Rightarrow> nat \<Rightarrow> error + collapse_state" where
  \<comment> \<open>one pass of \<open>for _ in range(npoints - npoints_to_keep)\<close>\<close>
  "decimate_step points new_outlets st iter =
     (case st of (edges1, edges2, ipoints_to_delete, ipoints_to_replace) \<Rightarrow>
      case edge_lengths points edges1 edges2 of Inl e \<Rightarrow> Inl e | Inr diff \<Rightarrow>
      case np_min diff of Inl e \<Rightarrow> Inl e | Inr mdiff \<Rightarrow>
      case first_where (\<lambda>k. close_to (diff ! k) mdiff) (length diff) of
        Inl e \<Rightarrow> Inl e
      | Inr mind \<Rightarrow>
          if edges2 ! mind \<notin> set new_outlets
          then Inr (collapse st (edges2 ! mind) (edges1 ! mind))
          else Inr (collapse st (edges1 ! mind) (edges2 ! mind)))"

definition np_delete :: "'a list \<Rightarrow> int list \<Rightarrow> error + 'a list" where
  \<comment> \<open>\<open>np.delete(xs, idxs)\<close>: negative indices count from the end, an index out of range
      raises, an index named twice is deleted once\<close>
  "np_delete xs idxs =
     (if \<exists>i \<in> set idxs. np_index (length xs) i = None then Inl IndexError
      else Inr (map snd (filter (\<lambda>(k, x). Some k \<notin> np_index (length xs) ` set idxs)
                           (zip [0 ..< length xs] xs))))"

definition index_in :: "nat list \<Rightarrow> int \<Rightarrow> error + int" where
  \<comment> \<open>\<open>np.where(sampled_indices == v)[0][0]\<close>\<close>
  "index_in sampled_indices v =
     (case first_where (\<lambda>k. int (sampled_indices ! k) = v) (length sampled_indices) of
        Inl e \<Rightarrow> Inl e | Inr k \<Rightarrow> Inr (int k))"

fun renumber :: "nat list \<Rightarrow> int list \<Rightarrow> error + int list" where
  "renumber sampled_indices [] = Inr []"
| "renumber sampled_indices (v # vs) =
     (case index_in sampled_indices v of Inl e \<Rightarrow> Inl e | Inr k \<Rightarrow>
      case renumber sampled_indices vs of Inl e \<Rightarrow> Inl e | Inr ks \<Rightarrow> Inr (k # ks))"

definition remove_points ::
  "int list \<Rightarrow> int list \<Rightarrow> int list \<Rightarrow> int list \<Rightarrow> nat
     \<Rightarrow> error + (nat list \<times> int list \<times> int list)" where
  "remove_points idxs_to_delete idxs_to_replace edges1 edges2 npoints =
     (case foldl (\<lambda>(e1, e2) i. modify_edges e1 e2 (idxs_to_delete ! i) (idxs_to_replace ! i))
             (edges1, edges2) [0 ..< length idxs_to_delete] of
        (edges1', edges2') \<Rightarrow>
          if length edges1' \<noteq> length edges2' then Inl ValueError
          else
            (let kept = filter (\<lambda>(a, b). a \<noteq> b) (zip edges1' edges2')
             in case np_delete [0 ..< npoints] idxs_to_delete of
                  Inl e \<Rightarrow> Inl e
                | Inr sampled_indices \<Rightarrow>
                    (case renumber sampled_indices (map fst kept) of Inl e \<Rightarrow> Inl e | Inr r1 \<Rightarrow>
                     case renumber sampled_indices (map snd kept) of Inl e \<Rightarrow> Inl e | Inr r2 \<Rightarrow>
                       Inr (sampled_indices, r1, r2))))"

definition py_int :: "real \<Rightarrow> int" where
  \<comment> \<open>Python's \<open>int(x)\<close> truncates towards zero\<close>
  "py_int x = (if 0 \<le> x then \<lfloor>x\<rfloor> else \<lceil>x\<rceil>)"

definition py_int_float :: "float64 \<Rightarrow> error + int" where
  \<comment> \<open>\<open>int(x)\<close> for a float \<open>x\<close>: an infinity raises \<open>OverflowError\<close>, NaN raises \<open>ValueError\<close>\<close>
  "py_int_float x =
     (case x of Finite a \<Rightarrow> Inr (py_int a) | PosInf \<Rightarrow> Inl OverflowError
      | NegInf \<Rightarrow> Inl OverflowError | NaN \<Rightarrow> Inl ValueError)"

type_synonym resampled = "nat list \<times> point list \<times> int list \<times> int list \<times> indices"

text \<open>
  \<open>npoints * perc_points_to_keep\<close> is a product of two floats, \<open>npoints\<close> converted first; the
  keep fraction is a finite float. \<open>resample_points\<close> assigns \<open>indices['outlets'] = new_outlets\<close>
  before the decimation loop, on the caller's dictionary. The model returns that dictionary
  beside the outcome, so the assignment is visible also when the call ends in an exception.
\<close>

definition resample_points ::
  "point list \<Rightarrow> int list \<Rightarrow> int list \<Rightarrow> indices \<Rightarrow> real \<Rightarrow> nat
     \<Rightarrow> indices \<times> (error + resampled)" where
  "resample_points points edges1 edges2 ind perc_points_to_keep remove_caps =
     (let npoints = length points
      in case py_int_float (fmul (fl (real npoints)) (Finite perc_points_to_keep)) of
           Inl e \<Rightarrow> (ind, Inl e)
         | Inr npoints_to_keep \<Rightarrow>
     (let st = remove_caps_loop remove_caps ind (edges1, edges2, [], []);
          new_outlets = map (\<lambda>outlet. outlet - int remove_caps) (outlets ind);
          ind' = ind\<lparr>outlets := new_outlets\<rparr>
      in (ind',
          case for_loop (decimate_step points new_outlets) st
                 [0 ..< nat (int npoints - npoints_to_keep)] of
            Inl e \<Rightarrow> Inl e
          | Inr (edges1', edges2', ipoints_to_delete, ipoints_to_replace) \<Rightarrow>
              (case remove_points ipoints_to_delete ipoints_to_replace edges1' edges2' npoints of
                 Inl e \<Rightarrow> Inl e
               | Inr (sampled_indices, edges1'', edges2'') \<Rightarrow>
                   (case np_delete points ipoints_to_delete of
                      Inl e \<Rightarrow> Inl e
                    | Inr points' \<Rightarrow>
                        Inr (sampled_indices, points', edges1'', edges2'', ind'))))))"

subsection \<open>The retry loop of the driver\<close>

text \<open>
  \<open>while not success\<close> around \<open>resample_points(points.copy(), edges1.copy(), edges2.copy(),
  indices, resample_perc, remove_caps = 3)\<close>. The arrays are copied for every attempt and are
  assigned only when the call returns; \<open>indices\<close> is the caller's dictionary, so an attempt
  that fails leaves its assignment to \<open>indices['outlets']\<close> behind. There is no bound on the
  number of attempts: a loop that never succeeds is the value \<open>None\<close>.
\<close>

partial_function (option) resample_retry ::
  "point list \<Rightarrow> int list \<Rightarrow> int list \<Rightarrow> indices \<Rightarrow> real \<Rightarrow> resampled option" where
  "resample_retry points edges1 edges2 ind resample_perc =
     (case resample_points points edges1 edges2 ind resample_perc 3 of
        (ind', Inr r) \<Rightarrow> Some r
      | (ind', Inl e) \<Rightarrow> resample_retry points edges1 edges2 ind' (min (resample_perc * 2) 1))"

subsection \<open>generate_boundary_edges\<close>








subsection \<open>create_partitions\<close>

text \<open>
  \<open>create_partition\<close> walks the directed edges breadth first from \<open>starting_point\<close>. Its
  local variables are the fields of \<open>traversal\<close>; the dictionary \<open>numbering\<close> is an association
  list. The \<open>while\<close> loop has no bound: on a cycle of points that are not inlets it runs for
  ever, which is the value \<open>None\<close>.
\<close>

record traversal =
  sampling_indices :: "int list"
  new_edges1 :: "nat list"
  new_edges2 :: "nat list"
  points_to_visit :: "int list"
  count :: nat
  numbering :: "(int \<times> nat) list"

definition np_where_eq :: "'a list \<Rightarrow> 'a \<Rightarrow> nat list" where
  \<comment> \<open>\<open>np.where(xs == j)[0]\<close>\<close>
  "np_where_eq xs j = filter (\<lambda>k. xs ! k = j) [0 ..< length xs]"

definition visit_edge :: "int list \<Rightarrow> int list \<Rightarrow> int \<Rightarrow> traversal \<Rightarrow> nat \<Rightarrow> error + traversal" where
  \<comment> \<open>the body of \<open>for iedg in iedges\<close>\<close>
  "visit_edge edges2 inlets j st iedg =
     (case getitem edges2 iedg of Inl e \<Rightarrow> Inl e | Inr next_point \<Rightarrow>
        (let numbering' = AList.update next_point (count st) (numbering st)
         in case map_of numbering' j of None \<Rightarrow> Inl KeyError | Some nj \<Rightarrow>
            case map_of numbering' next_point of None \<Rightarrow> Inl KeyError | Some nn \<Rightarrow>
              Inr (st\<lparr>numbering := numbering',
                      count := count st + 1,
                      sampling_indices := sampling_indices st @ [next_point],
                      new_edges1 := new_edges1 st @ [nj],
                      new_edges2 := new_edges2 st @ [nn],
                      points_to_visit :=
                        (if next_point \<notin> set inlets then points_to_visit st @ [next_point]
                         else points_to_visit st)\<rparr>)))"

partial_function (option) traverse ::
  "int list \<Rightarrow> int list \<Rightarrow> int list \<Rightarrow> traversal \<Rightarrow> (error + traversal) option" where
  "traverse edges1 edges2 inlets st =
     (case points_to_visit st of
        [] \<Rightarrow> Some (Inr st)
      | j # rest \<Rightarrow>
          (case for_loop (visit_edge edges2 inlets j) (st\<lparr>points_to_visit := rest\<rparr>)
                  (np_where_eq edges1 j) of
             Inl e \<Rightarrow> Some (Inl e)
           | Inr st' \<Rightarrow> traverse edges1 edges2 inlets st'))"

definition create_partition ::
  "int list \<Rightarrow> int list \<Rightarrow> int \<Rightarrow> int list \<Rightarrow> (error + nat list \<times> nat list \<times> int list) option" where
  "create_partition edges1 edges2 starting_point inlets =
     (case traverse edges1 edges2 inlets
             \<lparr>sampling_indices = [starting_point], new_edges1 = [], new_edges2 = [],
              points_to_visit = [starting_point], count = 1,
              numbering = [(starting_point, 0)]\<rparr> of
        None \<Rightarrow> None
      | Some (Inl e) \<Rightarrow> Some (Inl e)
      | Some (Inr st) \<Rightarrow> Some (Inr (new_edges1 st, new_edges2 st, sampling_indices st)))"

text \<open>
  The choice of the inlets. \<open>bif_id\<close> is the array \<open>point_data['BifurcationId']\<close> (the
  parameter \<open>bif_id\<close> of \<open>create_partitions\<close> is overwritten by it). The \<open>while True\<close> loop
  follows the first edge out of each point until it meets a point of a junction; \<open>next\<close> is
  \<open>-1\<close> when the walk ends at a point without an edge. The random numbers are parameters:
  \<open>rnd ipoint\<close> decides the \<open>np.random.randint\<close> call made for \<open>ipoint\<close>, \<open>smp k\<close> the \<open>k\<close>-th
  draw of \<open>random.sample\<close>; every result the two calls can have comes from some numbers.
\<close>

partial_function (option) next_junction ::
  "real list \<Rightarrow> int list \<Rightarrow> int list \<Rightarrow> int \<Rightarrow> (error + int) option" where
  "next_junction bif_id edges1 edges2 j =
     (case np_where_eq edges1 j of
        [] \<Rightarrow> Some (Inr (- 1))
      | iedg # others \<Rightarrow>
          (case getitem edges2 iedg of Inl e \<Rightarrow> Some (Inl e) | Inr j' \<Rightarrow>
           case np_get bif_id j' of Inl e \<Rightarrow> Some (Inl e) | Inr b \<Rightarrow>
             if b \<noteq> - 1 then Some (Inr j') else next_junction bif_id edges1 edges2 j'))"

definition randint :: "nat \<Rightarrow> int \<Rightarrow> int \<Rightarrow> error + int" where
  \<comment> \<open>\<open>np.random.randint(low, high)\<close>: one of \<open>low .. high - 1\<close>; \<open>low >= high\<close> raises\<close>
  "randint r low high =
     (if low < high then Inr (low + int (r mod nat (high - low))) else Inl ValueError)"

fun random_sample :: "(nat \<Rightarrow> nat) \<Rightarrow> 'a list \<Rightarrow> nat \<Rightarrow> error + 'a list" where
  \<comment> \<open>\<open>random.sample(xs, k)\<close>: \<open>k\<close> draws without replacement; too few elements raise\<close>
  "random_sample smp xs 0 = Inr []"
| "random_sample smp xs (Suc k) =
     (if xs = [] then Inl ValueError
      else (let i = smp k mod length xs
            in case random_sample smp (take i xs @ drop (Suc i) xs) k of
                 Inl e \<Rightarrow> Inl e
               | Inr ys \<Rightarrow> Inr (xs ! i # ys)))"

fun junction_inlets ::
  "(nat \<Rightarrow> nat) \<Rightarrow> real list \<Rightarrow> int list \<Rightarrow> int list \<Rightarrow> int \<Rightarrow> int list \<Rightarrow> nat list
     \<Rightarrow> (error + int list) option" where
  \<comment> \<open>\<open>for ipoint in range(npoints)\<close> with its \<open>break\<close>\<close>
  "junction_inlets rnd bif_id edges1 edges2 max_num_partitions inlets [] = Some (Inr inlets)"
| "junction_inlets rnd bif_id edges1 edges2 max_num_partitions inlets (ipoint # rest) =
     (if int (length inlets) = max_num_partitions then Some (Inr inlets)
      else case np_get bif_id (int ipoint) of Inl e \<Rightarrow> Some (Inl e) | Inr b \<Rightarrow>
        if b = - 1 then junction_inlets rnd bif_id edges1 edges2 max_num_partitions inlets rest
        else case np_get bif_id (int ipoint + 1) of Inl e \<Rightarrow> Some (Inl e) | Inr b1 \<Rightarrow>
        if b1 \<noteq> - 1 then junction_inlets rnd bif_id edges1 edges2 max_num_partitions inlets rest
        else case next_junction bif_id edges1 edges2 (int ipoint) of
               None \<Rightarrow> None
             | Some (Inl e) \<Rightarrow> Some (Inl e)
             | Some (Inr nxt) \<Rightarrow>
                 if nxt = - 1
                 then junction_inlets rnd bif_id edges1 edges2 max_num_partitions inlets rest
                 else case randint (rnd ipoint) (int ipoint + 1) nxt of
                        Inl e \<Rightarrow> Some (Inl e)
                      | Inr r \<Rightarrow>
                          junction_inlets rnd bif_id edges1 edges2 max_num_partitions
                            (inlets @ [r]) rest)"

definition choose_inlets ::
  "(nat \<Rightarrow> nat) \<Rightarrow> (nat \<Rightarrow> nat) \<Rightarrow> real list \<Rightarrow> int list \<Rightarrow> int list \<Rightarrow> int
     \<Rightarrow> (error + int list) option" where
  "choose_inlets rnd smp bif_id edges1 edges2 max_num_partitions =
     (case junction_inlets rnd bif_id edges1 edges2 max_num_partitions [0]
             [0 ..< length bif_id] of
        None \<Rightarrow> None
      | Some (Inl e) \<Rightarrow> Some (Inl e)
      | Some (Inr inlets) \<Rightarrow>
          if int (length inlets) < max_num_partitions then
            (let available_in = map int (np_where_eq bif_id (- 1));
                 n_new_inlets = nat (min (max_num_partitions - int (length inlets)) 2)
             in case random_sample smp available_in n_new_inlets of
                  Inl e \<Rightarrow> Some (Inl e)
                | Inr new \<Rightarrow> Some (Inr (inlets @ new)))
          else Some (Inr inlets))"

text \<open>
  A partition is the dictionary with the keys \<open>'edges1'\<close>, \<open>'edges2'\<close>, \<open>'points'\<close>,
  \<open>'sampling_indices'\<close> and \<open>'point_data'\<close>. \<open>point_data\<close> is the dictionary of the arrays over
  the points, in the order of its keys.
\<close>

record partition =
  part_edges1 :: "nat list"
  part_edges2 :: "nat list"
  part_points :: "point list"
  part_sampling_indices :: "int list"
  part_point_data :: "(string \<times> real list) list"

fun np_take :: "'a list \<Rightarrow> int list \<Rightarrow> error + 'a list" where
  \<comment> \<open>\<open>xs[idxs]\<close> for a list of indices\<close>
  "np_take xs [] = Inr []"
| "np_take xs (i # idxs) =
     (case np_get xs i of Inl e \<Rightarrow> Inl e | Inr x \<Rightarrow>
      case np_take xs idxs of Inl e \<Rightarrow> Inl e | Inr ys \<Rightarrow> Inr (x # ys))"

definition slice_point_data ::
  "(string \<times> real list) list \<Rightarrow> int list \<Rightarrow> error + (string \<times> real list) list" where
  \<comment> \<open>\<open>for ndata in point_data: ppoint_data[ndata] = point_data[ndata][sampling_indices]\<close>\<close>
  "slice_point_data pdata idxs =
     for_loop (\<lambda>ppoint_data (ndata, values).
        case np_take values idxs of Inl e \<Rightarrow> Inl e
        | Inr sliced \<Rightarrow> Inr (AList.update ndata sliced ppoint_data)) [] pdata"

fun build_partitions ::
  "point list \<Rightarrow> (string \<times> real list) list \<Rightarrow> int list \<Rightarrow> int list \<Rightarrow> int list
     \<Rightarrow> partition list \<Rightarrow> nat list \<Rightarrow> (error + partition list) option" where
  \<comment> \<open>\<open>for ipartition in range(len(inlets))\<close>\<close>
  "build_partitions pts pdata e1 e2 inlets partitions [] = Some (Inr partitions)"
| "build_partitions pts pdata e1 e2 inlets partitions (ipartition # rest) =
     (case create_partition e1 e2 (inlets ! ipartition) inlets of
        None \<Rightarrow> None
      | Some (Inl e) \<Rightarrow> Some (Inl e)
      | Some (Inr (pedges1, pedges2, sampling)) \<Rightarrow>
          (case np_take pts sampling of Inl e \<Rightarrow> Some (Inl e) | Inr ppoints \<Rightarrow>
           case slice_point_data pdata sampling of Inl e \<Rightarrow> Some (Inl e) | Inr ppoint_data \<Rightarrow>
             (let new_partition =
                    \<lparr>part_edges1 = pedges1, part_edges2 = pedges2, part_points = ppoints,
                     part_sampling_indices = sampling, part_point_data = ppoint_data\<rparr>
              in build_partitions pts pdata e1 e2 inlets
                   (if length pedges1 > 1 then partitions @ [new_partition] else partitions)
                   rest)))"

definition create_partitions ::
  "(nat \<Rightarrow> nat) \<Rightarrow> (nat \<Rightarrow> nat) \<Rightarrow> point list \<Rightarrow> (string \<times> real list) list
     \<Rightarrow> int list \<Rightarrow> int list \<Rightarrow> int \<Rightarrow> (error + partition list) option" where
  "create_partitions rnd smp pts pdata e1 e2 max_num_partitions =
     (case map_of pdata ''BifurcationId'' of
        None \<Rightarrow> Some (Inl KeyError)
      | Some bif_id \<Rightarrow>
          (case choose_inlets rnd smp bif_id e1 e2 max_num_partitions of
             None \<Rightarrow> None
           | Some (Inl e) \<Rightarrow> Some (Inl e)
           | Some (Inr inlets) \<Rightarrow>
               build_partitions pts pdata e1 e2 inlets [] [0 ..< length inlets]))"

definition single_parent :: "int list \<Rightarrow> int list \<Rightarrow> bool" where
  \<comment> \<open>no point is the end of edges from two different points\<close>
  "single_parent e1 e2 \<longleftrightarrow>
     (\<forall>(u, v) \<in> set (zip e1 e2). \<forall>(u', v') \<in> set (zip e1 e2). v = v' \<longrightarrow> u = u')"

section \<open>Properties\<close>

subsection \<open>float64 rounding\<close>

text \<open>
  Rounding is monotone and odd, it leaves \<open>m * 2^k\<close> with \<open>|m| < 2^53\<close> and \<open>k \<ge> -1074\<close> as
  it is, it takes magnitudes below \<open>2^-1075\<close> to zero and those from \<open>2^1024\<close> on to an
  infinity.
\<close>

lemma ulp_pos: "0 < ulp x"
  by (simp add: ulp_def)

lemma round_half_even_of_int: "round_half_even (of_int z) = z"
  by (simp add: round_half_even_def)

lemma round_half_even_bounds: "\<lfloor>y\<rfloor> \<le> round_half_even y \<and> round_half_even y \<le> \<lfloor>y\<rfloor> + 1"
  by (simp add: round_half_even_def Let_def)

lemma round_half_even_le: "y \<le> of_int n \<Longrightarrow> round_half_even y \<le> n"
proof -
  assume h: "y \<le> of_int n"
  show ?thesis
  proof (cases "y = of_int n")
    case True
    then show ?thesis by (simp add: round_half_even_of_int)
  next
    case False
    with h have "y < of_int n" by simp
    then have "\<lfloor>y\<rfloor> < n" by linarith
    with round_half_even_bounds [of y] show ?thesis by linarith
  qed
qed

lemma round_half_even_ge: "of_int n \<le> y \<Longrightarrow> n \<le> round_half_even y"
proof -
  assume "of_int n \<le> y"
  then have "n \<le> \<lfloor>y\<rfloor>" by linarith
  with round_half_even_bounds [of y] show ?thesis by linarith
qed

lemma round_half_even_mono: "a \<le> b \<Longrightarrow> round_half_even a \<le> round_half_even b"
proof -
  assume ab: "a \<le> b"
  have fl: "\<lfloor>a\<rfloor> \<le> \<lfloor>b\<rfloor>" using ab by (rule floor_mono)
  show ?thesis
  proof (cases "\<lfloor>a\<rfloor> = \<lfloor>b\<rfloor>")
    case True
    with ab show ?thesis by (auto simp: round_half_even_def Let_def)
  next
    case False
    with fl have "\<lfloor>a\<rfloor> + 1 \<le> \<lfloor>b\<rfloor>" by simp
    with round_half_even_bounds [of a] round_half_even_bounds [of b] show ?thesis by linarith
  qed
qed

lemma round_half_even_minus: "round_half_even (- y) = - round_half_even y"
proof (cases "y = of_int \<lfloor>y\<rfloor>")
  case True
  then obtain z where "y = of_int z" ..
  then have "- y = of_int (- z)" by simp
  then show ?thesis using \<open>y = of_int z\<close> by (simp only: round_half_even_of_int)
next
  case False
  then have c: "\<lfloor>- y\<rfloor> = - \<lfloor>y\<rfloor> - 1"
    by (metis ceiling_altdef ceiling_def add_diff_cancel_right' minus_diff_eq uminus_add_conv_diff)
  have lt: "of_int \<lfloor>y\<rfloor> < y" using False by (metis of_int_floor_le order_less_le)
  show ?thesis
    unfolding round_half_even_def Let_def c using lt by auto
qed


lemma two_powr_powi: "(2::real) powr real_of_int k = 2 powi k"
  by (rule powr_real_of_int') simp_all

lemma floor_log2_eq:
  assumes "2 powi k \<le> x" and "x < 2 powi (k + 1)"
  shows "\<lfloor>log 2 x\<rfloor> = k"
proof -
  have "0 < (2::real) powi k" by simp
  with assms have xpos: "0 < x" by linarith
  have "2 powr real_of_int k \<le> x \<and> x < 2 powr (real_of_int k + 1)"
    using assms two_powr_powi [of k] two_powr_powi [of "k + 1"] by simp
  with floor_log_eq_powr_iff [of x 2 k] xpos show ?thesis by simp
qed

lemma floor_log2_bounds:
  assumes "0 < x"
  shows "2 powi \<lfloor>log 2 x\<rfloor> \<le> x \<and> x < 2 powi (\<lfloor>log 2 x\<rfloor> + 1)"
proof -
  from floor_log_eq_powr_iff [of x 2 "\<lfloor>log 2 x\<rfloor>"] assms
  have "2 powr real_of_int \<lfloor>log 2 x\<rfloor> \<le> x \<and> x < 2 powr (real_of_int \<lfloor>log 2 x\<rfloor> + 1)" by simp
  then show ?thesis
    using two_powr_powi [of "\<lfloor>log 2 x\<rfloor>"] two_powr_powi [of "\<lfloor>log 2 x\<rfloor> + 1"] by simp
qed

lemma float_exponent_upper:
  assumes "x \<noteq> 0"
  shows "\<bar>x\<bar> < 2 powi (float_exponent x + 1)"
proof -
  from assms have pos: "0 < \<bar>x\<bar>" by simp
  have "\<bar>x\<bar> < 2 powi (\<lfloor>log 2 \<bar>x\<bar>\<rfloor> + 1)" using floor_log2_bounds [OF pos] by simp
  also have "\<dots> \<le> 2 powi (float_exponent x + 1)"
    by (rule power_int_increasing) (simp_all add: float_exponent_def)
  finally show ?thesis .
qed

lemma float_exponent_lower:
  assumes "2 powi (- 1022) \<le> \<bar>x\<bar>"
  shows "2 powi float_exponent x \<le> \<bar>x\<bar>"
proof -
  have "0 < (2::real) powi (- 1022)" by (rule zero_less_power_int) simp
  with assms have pos: "0 < \<bar>x\<bar>" by linarith
  have "- 1022 \<le> \<lfloor>log 2 \<bar>x\<bar>\<rfloor>"
  proof (rule ccontr)
    assume "\<not> - 1022 \<le> \<lfloor>log 2 \<bar>x\<bar>\<rfloor>"
    then have "\<lfloor>log 2 \<bar>x\<bar>\<rfloor> < - 1022" by (simp only: not_le)
    then have "\<lfloor>log 2 \<bar>x\<bar>\<rfloor> + 1 \<le> - 1022" by (simp only: zless_iff_Suc_zadd) auto
    then have "(2::real) powi (\<lfloor>log 2 \<bar>x\<bar>\<rfloor> + 1) \<le> 2 powi (- 1022)"
      by (intro power_int_increasing) simp_all
    with floor_log2_bounds [OF pos] assms show False by linarith
  qed
  then have "float_exponent x = \<lfloor>log 2 \<bar>x\<bar>\<rfloor>" by (simp add: float_exponent_def)
  with floor_log2_bounds [OF pos] show ?thesis by simp
qed

lemma float_exponent_eq:
  assumes "2 powi k \<le> \<bar>x\<bar>" and "\<bar>x\<bar> < 2 powi (k + 1)"
  shows "float_exponent x = max (- 1022) k"
  using floor_log2_eq [OF assms] by (simp add: float_exponent_def)

lemma float_exponent_ge: "- 1022 \<le> float_exponent x"
  by (simp add: float_exponent_def)

lemma float_exponent_minus: "float_exponent (- x) = float_exponent x"
  by (simp add: float_exponent_def)

lemma ulp_minus: "ulp (- x) = ulp x"
  by (simp add: ulp_def float_exponent_minus)

lemma round64_minus: "round64 (- x) = - round64 x"
  by (simp add: round64_def ulp_minus round_half_even_minus)

lemma round64_zero: "round64 0 = 0"
  by (simp add: round64_def round_half_even_def)

lemma powi_52_split: "(2::real) powi e = 2 ^ 52 * 2 powi (e - 52)"
proof -
  have "(2::real) powi e = 2 powi (52 + (e - 52))" by simp
  also have "\<dots> = 2 powi 52 * 2 powi (e - 52)" by (rule power_int_add) simp
  finally show ?thesis by simp
qed

lemma powi_53_split: "(2::real) powi (e + 1) = 2 ^ 53 * 2 powi (e - 52)"
proof -
  have "e + 1 = 53 + (e - 52)" by simp
  then have "(2::real) powi (e + 1) = 2 powi (53 + (e - 52))" by (rule arg_cong)
  also have "\<dots> = 2 powi 53 * 2 powi (e - 52)" by (rule power_int_add) simp
  finally show ?thesis by simp
qed

lemma round64_upper:
  assumes "0 < x"
  shows "round64 x \<le> 2 powi (float_exponent x + 1)"
proof -
  let ?u = "ulp x"
  have u: "0 < ?u" by (rule ulp_pos)
  from assms float_exponent_upper [of x] have "x < 2 powi (float_exponent x + 1)" by simp
  then have "x < 2 ^ 53 * ?u" by (simp add: powi_53_split [of "float_exponent x"] ulp_def)
  then have "x / ?u \<le> of_int (2 ^ 53)" using u by (simp add: pos_divide_le_eq)
  then have "round_half_even (x / ?u) \<le> 2 ^ 53" by (rule round_half_even_le)
  then have "real_of_int (round_half_even (x / ?u)) \<le> real_of_int (2 ^ 53)"
    by (simp only: of_int_le_iff)
  then have "real_of_int (round_half_even (x / ?u)) \<le> 2 ^ 53" by simp
  then have "real_of_int (round_half_even (x / ?u)) * ?u \<le> 2 ^ 53 * ?u"
    using u by (simp add: mult_right_mono)
  then show ?thesis
    by (simp add: round64_def powi_53_split [of "float_exponent x"] ulp_def)
qed

lemma round64_lower:
  assumes "0 < x" and "2 powi float_exponent x \<le> x"
  shows "2 powi float_exponent x \<le> round64 x"
proof -
  let ?u = "ulp x"
  have u: "0 < ?u" by (rule ulp_pos)
  from assms have "2 ^ 52 * ?u \<le> x" by (simp add: powi_52_split [of "float_exponent x"] ulp_def)
  then have "of_int (2 ^ 52) \<le> x / ?u" using u by (simp add: pos_le_divide_eq)
  then have "2 ^ 52 \<le> round_half_even (x / ?u)" by (rule round_half_even_ge)
  then have "real_of_int (2 ^ 52) \<le> real_of_int (round_half_even (x / ?u))"
    by (simp only: of_int_le_iff)
  then have "2 ^ 52 \<le> real_of_int (round_half_even (x / ?u))" by simp
  then have "2 ^ 52 * ?u \<le> real_of_int (round_half_even (x / ?u)) * ?u"
    using u by (simp add: mult_right_mono)
  then show ?thesis
    by (simp add: round64_def powi_52_split [of "float_exponent x"] ulp_def)
qed

lemma round64_nonneg: "0 \<le> x \<Longrightarrow> 0 \<le> round64 x"
proof -
  assume "0 \<le> x"
  then have "of_int 0 \<le> x / ulp x" using ulp_pos [of x] by simp
  then have "0 \<le> round_half_even (x / ulp x)" by (rule round_half_even_ge)
  then show ?thesis using ulp_pos [of x] by (simp add: round64_def)
qed

lemma float_exponent_mono:
  assumes "0 < x" and "x \<le> y"
  shows "float_exponent x \<le> float_exponent y"
proof -
  have "log 2 x \<le> log 2 y" using assms by simp
  then have "\<lfloor>log 2 x\<rfloor> \<le> \<lfloor>log 2 y\<rfloor>" by (rule floor_mono)
  then show ?thesis using assms by (simp add: float_exponent_def)
qed

lemma round64_mono_pos:
  assumes "0 < x" and "x \<le> y"
  shows "round64 x \<le> round64 y"
proof (cases "float_exponent x = float_exponent y")
  case True
  then have u: "ulp x = ulp y" by (simp add: ulp_def)
  have "x / ulp y \<le> y / ulp y" using assms ulp_pos [of y] by (simp add: divide_right_mono)
  then have "round_half_even (x / ulp y) \<le> round_half_even (y / ulp y)"
    by (rule round_half_even_mono)
  then have "real_of_int (round_half_even (x / ulp y)) * ulp y
               \<le> real_of_int (round_half_even (y / ulp y)) * ulp y"
    using ulp_pos [of y] by (simp add: mult_right_mono)
  then show ?thesis by (simp add: round64_def u)
next
  case False
  with float_exponent_mono [OF assms] have lt: "float_exponent x + 1 \<le> float_exponent y" by simp
  from assms have ypos: "0 < y" by simp
  have ylow: "2 powi float_exponent y \<le> \<bar>y\<bar>"
  proof (rule float_exponent_lower)
    have "- 1022 \<le> float_exponent x" by (rule float_exponent_ge)
    with lt have "- 1022 < float_exponent y" by simp
    then have "float_exponent y = \<lfloor>log 2 \<bar>y\<bar>\<rfloor>" by (simp add: float_exponent_def)
    moreover have "2 powi \<lfloor>log 2 \<bar>y\<bar>\<rfloor> \<le> \<bar>y\<bar>" using floor_log2_bounds [of "\<bar>y\<bar>"] ypos by simp
    moreover have "(2::real) powi (- 1022) \<le> 2 powi float_exponent y"
      using \<open>- 1022 < float_exponent y\<close> by (intro power_int_increasing) simp_all
    ultimately show "2 powi (- 1022) \<le> \<bar>y\<bar>" by simp
  qed
  have "round64 x \<le> 2 powi (float_exponent x + 1)" by (rule round64_upper [OF assms(1)])
  also have "\<dots> \<le> 2 powi float_exponent y" using lt by (intro power_int_increasing) simp_all
  also have "\<dots> \<le> round64 y" using round64_lower [OF ypos] ylow ypos by simp
  finally show ?thesis .
qed

lemma round64_mono: "x \<le> y \<Longrightarrow> round64 x \<le> round64 y"
proof -
  assume xy: "x \<le> y"
  consider "0 < x" | "x \<le> 0" "0 \<le> y" | "y < 0" by linarith
  then show ?thesis
  proof cases
    case 1
    then show ?thesis using xy by (rule round64_mono_pos)
  next
    case 2
    from 2(1) have "0 \<le> round64 (- x)" by (intro round64_nonneg) simp
    then have "round64 x \<le> 0" by (simp add: round64_minus)
    also have "0 \<le> round64 y" using 2(2) by (rule round64_nonneg)
    finally show ?thesis .
  next
    case 3
    then have "0 < - y" and "- y \<le> - x" using xy by simp_all
    then have "round64 (- y) \<le> round64 (- x)" by (rule round64_mono_pos)
    then show ?thesis by (simp add: round64_minus)
  qed
qed


lemma round64_dyadic:
  assumes m: "\<bar>m\<bar> < 2 ^ 53" and k: "- 1074 \<le> k"
  shows "round64 (of_int m * 2 powi k) = of_int m * 2 powi k"
proof (cases "m = 0")
  case True
  then show ?thesis by (simp add: round64_zero)
next
  case False
  define a where "a = \<bar>real_of_int m\<bar>"
  define j where "j = \<lfloor>log 2 a\<rfloor>"
  define x where "x = real_of_int m * 2 powi k"
  have a1: "1 \<le> a" using False by (simp add: a_def)
  then have apos: "0 < a" by simp
  from floor_log2_bounds [OF apos] have jl: "2 powi j \<le> a" and ju: "a < 2 powi (j + 1)"
    by (simp_all add: j_def)
  have j0: "0 \<le> j"
  proof (rule ccontr)
    assume "\<not> 0 \<le> j"
    then have "j + 1 \<le> 0" by simp
    then have "(2::real) powi (j + 1) \<le> 2 powi 0" by (intro power_int_increasing) simp_all
    with ju a1 show False by simp
  qed
  have a53: "a < 2 powi 53"
  proof -
    have "real_of_int \<bar>m\<bar> < real_of_int (2 ^ 53)" using m by (simp only: of_int_less_iff)
    then show ?thesis by (simp add: a_def)
  qed
  have j52: "j \<le> 52"
  proof (rule ccontr)
    assume "\<not> j \<le> 52"
    then have "53 \<le> j" by simp
    then have "(2::real) powi 53 \<le> 2 powi j" by (intro power_int_increasing) simp_all
    with jl a53 show False by linarith
  qed
  have ax: "\<bar>x\<bar> = a * 2 powi k" by (simp add: x_def a_def abs_mult)
  have p: "0 < (2::real) powi k" by simp
  have xl: "2 powi (j + k) \<le> \<bar>x\<bar>"
    using jl p by (simp add: ax power_int_add mult_right_mono)
  have "a * 2 powi k < 2 powi (j + 1) * 2 powi k" using ju p by (simp add: mult_strict_right_mono)
  also have "\<dots> = 2 powi (j + k + 1)" by (simp add: power_int_add [symmetric] algebra_simps)
  finally have xu: "\<bar>x\<bar> < 2 powi (j + k + 1)" by (simp add: ax)
  define e where "e = max (- 1022) (j + k)"
  have e: "float_exponent x = e" unfolding e_def by (rule float_exponent_eq [OF xl xu])
  define d where "d = nat (k - (e - 52))"
  have dk: "k = int d + (e - 52)" using k j52 by (auto simp: d_def e_def)
  have u: "ulp x = 2 powi (e - 52)" by (simp add: ulp_def e)
  have "2 powi k = (2::real) powi (int d + (e - 52))" using dk by simp
  also have "\<dots> = 2 powi (int d) * 2 powi (e - 52)" by (rule power_int_add) simp
  finally have pk: "(2::real) powi k = 2 ^ d * 2 powi (e - 52)" by simp
  have "x / ulp x = x / 2 powi (e - 52)" by (simp only: u)
  also have "\<dots> = real_of_int (m * 2 ^ d)" unfolding x_def pk by simp
  finally have q: "x / ulp x = real_of_int (m * 2 ^ d)" .
  have "round_half_even (x / ulp x) = m * 2 ^ d"
    unfolding q by (rule round_half_even_of_int)
  then have "round64 x = real_of_int (m * 2 ^ d) * 2 powi (e - 52)"
    by (simp only: round64_def u)
  also have "\<dots> = x" by (simp add: x_def pk)
  finally show ?thesis by (simp add: x_def)
qed

lemma round64_of_int: "\<bar>m\<bar> < 2 ^ 53 \<Longrightarrow> round64 (of_int m) = of_int m"
  using round64_dyadic [of m 0] by simp

lemma round64_of_int_div: "\<bar>m\<bar> < 2 ^ 53 \<Longrightarrow> k \<le> 1074 \<Longrightarrow> round64 (of_int m / 2 ^ k) = of_int m / 2 ^ k"
  using round64_dyadic [of m "- int k"] by (simp add: power_int_minus field_simps)

lemma round64_of_int_mult: "\<bar>m\<bar> < 2 ^ 53 \<Longrightarrow> round64 (of_int m * 2 ^ k) = of_int m * 2 ^ k"
  using round64_dyadic [of m "int k"] by simp

lemma fl_between:
  assumes "round64 a = a" and "round64 b = b" and "a \<le> x" and "x \<le> b"
    and "- (2 ^ 1024) < a" and "b < 2 ^ 1024"
  shows "\<exists>y. fl x = Finite y \<and> a \<le> y \<and> y \<le> b"
proof -
  from round64_mono [OF assms(3)] round64_mono [OF assms(4)] assms(1,2)
  have "a \<le> round64 x" and "round64 x \<le> b" by simp_all
  with assms(5,6) show ?thesis by (simp add: fl_def Let_def)
qed

lemma fl_exact: "round64 x = x \<Longrightarrow> \<bar>x\<bar> < 2 ^ 1024 \<Longrightarrow> fl x = Finite x"
  by (auto simp: fl_def Let_def)

lemma fl_overflow: "2 ^ 1024 \<le> x \<Longrightarrow> fl x = PosInf"
proof -
  assume "2 ^ 1024 \<le> x"
  from round64_mono [OF this] round64_of_int_mult [of 1 1024]
  show ?thesis by (simp add: fl_def)
qed

lemma fl_underflow:
  assumes "\<bar>x\<bar> < 1 / 2 ^ 1075"
  shows "fl x = Finite 0"
proof -
  have r: "round64 x = 0" if x0: "0 \<le> x" and xs: "x < 1 / 2 ^ 1075" for x :: real
  proof (cases "x = 0")
    case True
    then show ?thesis by (simp add: round64_zero)
  next
    case False
    with x0 have xpos: "0 < x" by simp
    have "\<lfloor>log 2 \<bar>x\<bar>\<rfloor> \<le> - 1022"
    proof (rule ccontr)
      assume "\<not> \<lfloor>log 2 \<bar>x\<bar>\<rfloor> \<le> - 1022"
      then have "- 1022 \<le> \<lfloor>log 2 \<bar>x\<bar>\<rfloor>" by linarith
      then have "(2::real) powi (- 1022) \<le> 2 powi \<lfloor>log 2 \<bar>x\<bar>\<rfloor>"
        by (intro power_int_increasing) simp_all
      also have "\<dots> \<le> \<bar>x\<bar>" using floor_log2_bounds [of "\<bar>x\<bar>"] xpos by simp
      finally have "(2::real) powi (- 1022) \<le> x" using xpos by simp
      moreover have "(1::real) / 2 ^ 1075 \<le> 2 powi (- 1022)"
        by (simp add: power_int_minus field_simps)
      ultimately show False using xs by linarith
    qed
    then have e: "float_exponent x = - 1022" by (simp add: float_exponent_def)
    have u: "ulp x = 1 / 2 ^ 1074" by (simp add: ulp_def e power_int_minus field_simps)
    have "x / ulp x < 1 / 2" using xs by (simp add: u field_simps)
    moreover have "0 \<le> x / ulp x" using x0 by (simp add: u)
    ultimately have "\<lfloor>x / ulp x\<rfloor> = 0" by linarith
    with \<open>x / ulp x < 1 / 2\<close> have "round_half_even (x / ulp x) = 0"
      by (simp add: round_half_even_def)
    then show ?thesis by (simp add: round64_def)
  qed
  have "round64 x = 0"
  proof (cases "0 \<le> x")
    case True
    with assms show ?thesis by (intro r) simp_all
  next
    case False
    with assms have "round64 (- x) = 0" by (intro r) simp_all
    then show ?thesis by (simp add: round64_minus)
  qed
  then show ?thesis by (simp add: fl_def)
qed

lemma fl_zero: "fl 0 = Finite 0"
  by (rule fl_exact) (simp_all add: round64_zero)

lemma fl_of_int: "\<bar>m\<bar> < 2 ^ 53 \<Longrightarrow> fl (of_int m) = Finite (of_int m)"
proof (rule fl_exact)
  assume m: "\<bar>m\<bar> < 2 ^ 53"
  then show "round64 (real_of_int m) = real_of_int m" by (rule round64_of_int)
  have "real_of_int \<bar>m\<bar> < real_of_int (2 ^ 53)" using m by (simp only: of_int_less_iff)
  then have "\<bar>real_of_int m\<bar> < 2 ^ 53" by simp
  also have "(2::real) ^ 53 < 2 ^ 1024" by simp
  finally show "\<bar>real_of_int m\<bar> < 2 ^ 1024" .
qed

lemma fl_numeral: "numeral n < (2::int) ^ 53 \<Longrightarrow> fl (numeral n) = Finite (numeral n)"
  using fl_of_int [of "numeral n"] by simp

lemma fl_neg_numeral: "numeral n < (2::int) ^ 53 \<Longrightarrow> fl (- numeral n) = Finite (- numeral n)"
  using fl_of_int [of "- numeral n"] by simp

lemma fl_one: "fl 1 = Finite 1"
  using fl_of_int [of 1] by simp

lemma fl_neg_one: "fl (- 1) = Finite (- 1)"
  using fl_of_int [of "- 1"] by simp

lemmas fl_int_simps = fl_zero fl_one fl_neg_one fl_numeral fl_neg_numeral

lemma linalg_norm64_x_axis:
  assumes "fl (a * a) = Finite (a * a)"
  shows "linalg_norm64 (Finite a, Finite 0, Finite 0) = fl \<bar>a\<bar>"
  using assms by (simp add: linalg_norm64_def fl_zero)

lemma abs_power2_less: "k \<le> 1023 \<Longrightarrow> \<bar>(2::real) ^ k\<bar> < 2 ^ 1024"
proof -
  assume "k \<le> 1023"
  then have "(2::real) ^ k < 2 ^ 1024" by (intro power_strict_increasing) simp_all
  moreover have "\<bar>(2::real) ^ k\<bar> = 2 ^ k" by (rule abs_of_nonneg) simp
  ultimately show ?thesis by (simp only:)
qed

lemma fl_power2: "k \<le> 1023 \<Longrightarrow> fl (2 ^ k) = Finite (2 ^ k)"
proof (rule fl_exact)
  show "round64 (2 ^ k) = 2 ^ k" using round64_of_int_mult [of 1 k] by simp
qed (rule abs_power2_less)

lemma fl_neg_power2: "k \<le> 1023 \<Longrightarrow> fl (- (2 ^ k)) = Finite (- (2 ^ k))"
proof (rule fl_exact)
  show "round64 (- (2 ^ k)) = - (2 ^ k)" using round64_of_int_mult [of "- 1" k] by simp
  assume "k \<le> 1023"
  then show "\<bar>- ((2::real) ^ k)\<bar> < 2 ^ 1024" unfolding abs_minus_cancel by (rule abs_power2_less)
qed

lemma fl_square_overflow: "512 \<le> k \<Longrightarrow> fl ((2 ^ k) * (2 ^ k)) = PosInf"
proof (rule fl_overflow)
  assume "512 \<le> k"
  then have "(2::real) ^ 1024 \<le> 2 ^ (k + k)" by (intro power_increasing) simp_all
  then show "(2::real) ^ 1024 \<le> 2 ^ k * 2 ^ k" by (simp add: power_add)
qed

lemmas float_eval = vsub64_def fsub_def linalg_norm64_x_axis fl_int_simps f64_def

subsection \<open>Lower bounds that survive rounding\<close>

lemma fl_not_NaN: "fl x \<noteq> NaN"
  by (simp add: fl_def Let_def)

lemma fl_cases: "(\<exists>y. fl x = Finite y \<and> y = round64 x) \<or> fl x = PosInf \<or> fl x = NegInf"
  by (simp add: fl_def Let_def)

lemma at_least_fl:
  assumes c: "round64 c = c" and c0: "0 \<le> c" and x: "c \<le> x"
  shows "at_least c (fl x)"
proof -
  from round64_mono [OF x] c have "c \<le> round64 x" by simp
  moreover have "- (2 ^ 1024) < (0::real)" by simp
  ultimately have "\<not> round64 x \<le> - (2 ^ 1024)" using c0 by linarith
  with \<open>c \<le> round64 x\<close> show ?thesis by (simp add: fl_def Let_def at_least_def)
qed

lemma at_least_weaken: "at_least c x \<Longrightarrow> b \<le> c \<Longrightarrow> at_least b x"
  by (cases x) (simp_all add: at_least_def)

lemma at_least_fadd_left:
  assumes "round64 c = c" and "0 \<le> c" and "at_least c x" and "at_least 0 y"
  shows "at_least c (fadd x y)"
proof (cases x)
  case (Finite a)
  show ?thesis
  proof (cases y)
    case (Finite b)
    with assms \<open>x = Finite a\<close> have "c \<le> a + b" by (simp add: at_least_def)
    with at_least_fl [OF assms(1,2)] Finite \<open>x = Finite a\<close> show ?thesis by simp
  qed (use assms Finite in \<open>simp_all add: at_least_def\<close>)
next
  case PosInf
  with assms show ?thesis by (cases y) (simp_all add: at_least_def)
qed (use assms in \<open>simp_all add: at_least_def\<close>)

lemma at_least_fadd_right:
  assumes "round64 c = c" and "0 \<le> c" and "at_least 0 x" and "at_least c y"
  shows "at_least c (fadd x y)"
proof (cases x)
  case (Finite a)
  show ?thesis
  proof (cases y)
    case (Finite b)
    with assms \<open>x = Finite a\<close> have "c \<le> a + b" by (simp add: at_least_def)
    with at_least_fl [OF assms(1,2)] Finite \<open>x = Finite a\<close> show ?thesis by simp
  qed (use assms Finite in \<open>simp_all add: at_least_def\<close>)
next
  case PosInf
  with assms show ?thesis by (cases y) (simp_all add: at_least_def)
qed (use assms in \<open>simp_all add: at_least_def\<close>)

lemma at_least_square:
  assumes c: "round64 (c * c) = c * c" and c0: "0 \<le> c"
    and x: "at_least c x \<or> at_least c (fneg x)"
  shows "at_least (c * c) (fmul x x)"
proof (cases x)
  case (Finite a)
  with x have "c \<le> \<bar>a\<bar>" by (auto simp: at_least_def)
  with c0 have "c * c \<le> \<bar>a\<bar> * \<bar>a\<bar>" by (intro mult_mono) simp_all
  then have "c * c \<le> a * a" by simp
  with at_least_fl [OF c] c0 Finite show ?thesis by simp
qed (use x in \<open>simp_all add: at_least_def\<close>)

lemma at_least_square_any: "x \<noteq> NaN \<Longrightarrow> at_least 0 (fmul x x)"
  using at_least_fl [of 0 "a * a" for a] by (cases x) (simp_all add: round64_zero at_least_def)

lemma at_least_fsqrt:
  assumes c: "round64 c = c" and c0: "0 \<le> c" and x: "at_least (c * c) x"
  shows "at_least c (fsqrt x)"
proof (cases x)
  case (Finite a)
  with x have le: "c * c \<le> a" by (simp add: at_least_def)
  with c0 have a0: "0 \<le> a" by (meson mult_nonneg_nonneg order_trans)
  from le have "sqrt (c * c) \<le> sqrt a" by (simp only: real_sqrt_le_iff)
  moreover have "sqrt (c * c) = c" using c0 by simp
  ultimately have "c \<le> sqrt a" by (simp only:)
  with at_least_fl [OF c c0] Finite a0 show ?thesis by simp
qed (use x in \<open>simp_all add: at_least_def\<close>)

lemma vsub64_not_NaN:
  "vsub64 p q = (x, y, z) \<Longrightarrow> x \<noteq> NaN \<and> y \<noteq> NaN \<and> z \<noteq> NaN"
  by (cases p, cases q) (auto simp: vsub64_def fsub_def fl_not_NaN)

lemma linalg_norm64_nonneg: "at_least 0 (linalg_norm64 (vsub64 p q))"
proof -
  obtain x y z where v: "vsub64 p q = (x, y, z)" by (cases "vsub64 p q")
  from vsub64_not_NaN [OF v] have x: "at_least 0 (fmul x x)" and y: "at_least 0 (fmul y y)"
    and z: "at_least 0 (fmul z z)" by (simp_all add: at_least_square_any)
  have r0: "round64 0 = 0" by (rule round64_zero)
  have "at_least 0 (fadd (fadd (fmul x x) (fmul y y)) (fmul z z))"
    by (intro at_least_fadd_left r0 x y z) simp_all
  then have "at_least 0 (fsqrt (fadd (fadd (fmul x x) (fmul y y)) (fmul z z)))"
    by (intro at_least_fsqrt r0) simp_all
  then show ?thesis by (simp add: v linalg_norm64_def)
qed

subsection \<open>Vectors\<close>

lemma linalg_norm_nonneg: "0 \<le> linalg_norm p"
  by (cases p) (simp add: linalg_norm_def)

lemma linalg_norm_zero_iff: "linalg_norm (vsub p q) = 0 \<longleftrightarrow> p = q"
proof (cases p, cases q)
  fix px py pz qx qy qz
  assume p: "p = (px, py, pz)" and q: "q = (qx, qy, qz)"
  have "0 \<le> (px - qx) * (px - qx) + (py - qy) * (py - qy) + (pz - qz) * (pz - qz)"
    by simp
  moreover have
    "(px - qx) * (px - qx) + (py - qy) * (py - qy) + (pz - qz) * (pz - qz) = 0
       \<longleftrightarrow> px = qx \<and> py = qy \<and> pz = qz"
  proof
    assume s: "(px - qx) * (px - qx) + (py - qy) * (py - qy) + (pz - qz) * (pz - qz) = 0"
    have a: "0 \<le> (px - qx) * (px - qx)" and b: "0 \<le> (py - qy) * (py - qy)"
      and c: "0 \<le> (pz - qz) * (pz - qz)" by simp_all
    from s a b c have "(px - qx) * (px - qx) = 0" "(py - qy) * (py - qy) = 0"
      "(pz - qz) * (pz - qz) = 0" by linarith+
    then show "px = qx \<and> py = qy \<and> pz = qz" by simp
  qed simp
  ultimately show ?thesis
    by (simp add: p q linalg_norm_def vsub_def)
qed

lemma linalg_norm_x_axis: "linalg_norm (a, 0, 0) = \<bar>a\<bar>"
  by (simp add: linalg_norm_def)

subsection \<open>The float64 norm of a coordinate difference\<close>

lemma fneg_fl: "fneg (fl y) = fl (- y)"
proof -
  have "(2::real) ^ 1024 > 0" by simp
  then show ?thesis by (auto simp: fl_def Let_def round64_minus)
qed

lemma fsub_Finite: "fsub (Finite b) (Finite a) = fl (b - a)"
  by (simp add: fsub_def)

lemma gap_exact: "round64 (1 / 2 ^ 537) = 1 / 2 ^ 537"
  using round64_of_int_div [of 1 537] by simp

lemma gap_square: "(1 / 2 ^ 537) * (1 / 2 ^ 537) = (1 :: real) / 2 ^ 1074"
proof -
  have "(2::real) ^ 537 * 2 ^ 537 = 2 ^ (537 + 537)" by (rule power_add [symmetric])
  then show ?thesis by (simp only: times_divide_times_eq mult_1 numeral_plus_numeral
        semiring_norm)
qed

lemma gap_square_exact: "round64 ((1 / 2 ^ 537) * (1 / 2 ^ 537)) = (1 / 2 ^ 537) * (1 / 2 ^ 537)"
  unfolding gap_square using round64_of_int_div [of 1 1074] by simp

lemma component_far:
  assumes "1 / 2 ^ 537 \<le> \<bar>b - a\<bar>"
  shows "at_least ((1 / 2 ^ 537) * (1 / 2 ^ 537)) (fmul (fl (b - a)) (fl (b - a)))"
proof (rule at_least_square [OF gap_square_exact])
  show "(0::real) \<le> 1 / 2 ^ 537" by simp
  show "at_least (1 / 2 ^ 537) (fl (b - a)) \<or> at_least (1 / 2 ^ 537) (fneg (fl (b - a)))"
  proof (cases "0 \<le> b - a")
    case True
    with assms have "1 / 2 ^ 537 \<le> b - a" by simp
    then have "at_least (1 / 2 ^ 537) (fl (b - a))" by (intro at_least_fl gap_exact) simp_all
    then show ?thesis ..
  next
    case False
    with assms have "1 / 2 ^ 537 \<le> - (b - a)" by simp
    then have "at_least (1 / 2 ^ 537) (fl (- (b - a)))" by (intro at_least_fl gap_exact) simp_all
    then show ?thesis by (simp only: fneg_fl) simp
  qed
qed

lemma component_any: "at_least 0 (fmul (fl d) (fl d))"
  by (rule at_least_square_any) (rule fl_not_NaN)

lemma linalg_norm64_far:
  assumes "1 / 2 ^ 537 \<le> max_gap pb pa"
  shows "at_least (1 / 2 ^ 537) (linalg_norm64 (vsub64 pb pa))"
proof (cases pb, cases pa)
  fix bx "by" bz ax ay az
  assume pb: "pb = (bx, by, bz)" and pa: "pa = (ax, ay, az)"
  let ?g = "(1::real) / 2 ^ 537"
  let ?X = "fmul (fl (bx - ax)) (fl (bx - ax))"
  let ?Y = "fmul (fl (by - ay)) (fl (by - ay))"
  let ?Z = "fmul (fl (bz - az)) (fl (bz - az))"
  have g0: "0 \<le> ?g * ?g" by simp
  from assms consider "?g \<le> \<bar>bx - ax\<bar>" | "?g \<le> \<bar>by - ay\<bar>" | "?g \<le> \<bar>bz - az\<bar>"
    unfolding max_gap_def pb pa prod.case by linarith
  then have "at_least (?g * ?g) (fadd (fadd ?X ?Y) ?Z)"
  proof cases
    case 1
    have "at_least (?g * ?g) (fadd ?X ?Y)"
      by (rule at_least_fadd_left [OF gap_square_exact g0 component_far [OF 1] component_any])
    then show ?thesis
      by (rule at_least_fadd_left [OF gap_square_exact g0 _ component_any])
  next
    case 2
    have "at_least (?g * ?g) (fadd ?X ?Y)"
      by (rule at_least_fadd_right [OF gap_square_exact g0 component_any component_far [OF 2]])
    then show ?thesis
      by (rule at_least_fadd_left [OF gap_square_exact g0 _ component_any])
  next
    case 3
    have "at_least 0 (fadd ?X ?Y)"
      by (rule at_least_fadd_left [OF round64_zero order_refl component_any component_any])
    then show ?thesis
      by (rule at_least_fadd_right [OF gap_square_exact g0 _ component_far [OF 3]])
  qed
  then have "at_least ?g (fsqrt (fadd (fadd ?X ?Y) ?Z))"
    by (intro at_least_fsqrt gap_exact) simp_all
  then show ?thesis
    by (simp only: pb pa vsub64_def linalg_norm64_def prod.case fsub_Finite)
qed

lemma component_close:
  assumes "\<bar>b - a\<bar> \<le> 1 / 2 ^ 538"
  shows "\<exists>d. fl (b - a) = Finite d \<and> fmul (Finite d) (Finite d) = Finite 0"
proof -
  let ?h = "(1::real) / 2 ^ 538"
  have e1: "round64 ?h = ?h" using round64_of_int_div [of 1 538] by simp
  have e2: "round64 (- ?h) = - ?h" using round64_of_int_div [of "- 1" 538] by simp
  have lo: "- (2 ^ 1024) < - ?h"
  proof -
    have "?h \<le> 1" by simp
    moreover have "(1::real) < 2 ^ 1024" by (rule one_less_power) simp_all
    ultimately show ?thesis by linarith
  qed
  then have hi: "?h < 2 ^ 1024" by linarith
  from assms have "- ?h \<le> b - a" and "b - a \<le> ?h" by linarith+
  from fl_between [OF e2 e1 this lo hi] obtain d where
    d: "fl (b - a) = Finite d" and dl: "- ?h \<le> d" and du: "d \<le> ?h" by blast
  from dl du have "\<bar>d\<bar> \<le> ?h" by linarith
  then have "\<bar>d\<bar> * \<bar>d\<bar> \<le> ?h * ?h" by (intro mult_mono) simp_all
  moreover have "?h * ?h = 1 / 2 ^ 1076"
  proof -
    have "(2::real) ^ 538 * 2 ^ 538 = 2 ^ (538 + 538)" by (rule power_add [symmetric])
    then show ?thesis by (simp only: times_divide_times_eq mult_1 numeral_plus_numeral
          semiring_norm)
  qed
  moreover have "(1::real) / 2 ^ 1076 < 1 / 2 ^ 1075"
  proof -
    have "(2::real) ^ 1075 < 2 ^ 1076" by (rule power_strict_increasing) simp_all
    then show ?thesis by (simp only: frac_less2 divide_strict_left_mono zero_less_one
          zero_less_power zero_less_numeral mult_pos_pos)
  qed
  ultimately have "\<bar>d\<bar> * \<bar>d\<bar> < 1 / 2 ^ 1075" by (simp only:)
  then have "\<bar>d * d\<bar> < 1 / 2 ^ 1075" by (simp only: abs_mult)
  then have "fl (d * d) = Finite 0" by (rule fl_underflow)
  with d show ?thesis by simp
qed

lemma fdiv_zero_not_finite: "\<not> is_finite (fdiv x (Finite 0))"
  by (cases x) (simp_all add: is_finite_def signed_inf_def)

lemma linalg_norm64_close:
  assumes "max_gap pb pa \<le> 1 / 2 ^ 538"
  shows "linalg_norm64 (vsub64 pb pa) = Finite 0"
proof (cases pb, cases pa)
  fix bx "by" bz ax ay az
  assume pb: "pb = (bx, by, bz)" and pa: "pa = (ax, ay, az)"
  from assms have "\<bar>bx - ax\<bar> \<le> 1 / 2 ^ 538" and "\<bar>by - ay\<bar> \<le> 1 / 2 ^ 538"
    and "\<bar>bz - az\<bar> \<le> 1 / 2 ^ 538"
    unfolding max_gap_def pb pa prod.case by linarith+
  from component_close [OF this(1)] component_close [OF this(2)] component_close [OF this(3)]
  obtain dx dy dz where
    "fl (bx - ax) = Finite dx" "fmul (Finite dx) (Finite dx) = Finite 0"
    "fl (by - ay) = Finite dy" "fmul (Finite dy) (Finite dy) = Finite 0"
    "fl (bz - az) = Finite dz" "fmul (Finite dz) (Finite dz) = Finite 0"
    by blast
  then show ?thesis
    by (simp only: pb pa vsub64_def linalg_norm64_def prod.case fsub_Finite)
       (simp add: fl_zero)
qed

lemma vdiv64_zero_not_finite:
  "vdiv64 v (Finite 0) = (x, y, z) \<Longrightarrow> \<not> is_finite x \<and> \<not> is_finite y \<and> \<not> is_finite z"
  by (cases v) (auto simp: vdiv64_def fdiv_zero_not_finite)

subsection \<open>Edge features\<close>

lemma edge_features_loop_rows:
  assumes "\<forall>i \<in> set is. i < length edges1 \<and> i < length edges2
             \<and> np_index (length points) (edges1 ! i) \<noteq> None
             \<and> np_index (length points) (edges2 ! i) \<noteq> None"
  shows "\<exists>rel dist. edge_features_loop points edges1 edges2 is rel0 dist0 = Inr (rel0 @ rel, dist0 @ dist)
           \<and> length rel = length is \<and> length dist = length is
           \<and> (\<forall>k < length is. \<exists>pa pb.
                 np_get points (edges1 ! (is ! k)) = Inr pa
               \<and> np_get points (edges2 ! (is ! k)) = Inr pb
               \<and> dist ! k = linalg_norm64 (vsub64 pb pa)
               \<and> rel ! k = vdiv64 (vsub64 pb pa) (dist ! k))"
  using assms
proof (induction "is" arbitrary: rel0 dist0)
  case Nil
  then show ?case by simp
next
  case (Cons i rest)
  from Cons.prems have i1: "i < length edges1" and i2: "i < length edges2"
    and r1: "np_index (length points) (edges1 ! i) \<noteq> None"
    and r2: "np_index (length points) (edges2 ! i) \<noteq> None" by simp_all
  from r1 obtain ka where "np_index (length points) (edges1 ! i) = Some ka" by blast
  then have "np_get points (edges1 ! i) = Inr (points ! ka)" by (simp add: np_get_def)
  then obtain pa where pa: "np_get points (edges1 ! i) = Inr pa" ..
  from r2 obtain kb where "np_index (length points) (edges2 ! i) = Some kb" by blast
  then have "np_get points (edges2 ! i) = Inr (points ! kb)" by (simp add: np_get_def)
  then obtain pb where pb: "np_get points (edges2 ! i) = Inr pb" ..
  define nd where "nd = linalg_norm64 (vsub64 pb pa)"
  define row where "row = vdiv64 (vsub64 pb pa) nd"
  from Cons.prems have rest: "\<forall>i \<in> set rest. i < length edges1 \<and> i < length edges2
             \<and> np_index (length points) (edges1 ! i) \<noteq> None
             \<and> np_index (length points) (edges2 ! i) \<noteq> None" by simp
  from Cons.IH [OF rest, of "rel0 @ [row]" "dist0 @ [nd]"]
  obtain rel dist where
    run: "edge_features_loop points edges1 edges2 rest (rel0 @ [row]) (dist0 @ [nd])
            = Inr ((rel0 @ [row]) @ rel, (dist0 @ [nd]) @ dist)"
    and lr: "length rel = length rest" and ld: "length dist = length rest"
    and each: "\<forall>k < length rest. \<exists>pa pb.
                 np_get points (edges1 ! (rest ! k)) = Inr pa
               \<and> np_get points (edges2 ! (rest ! k)) = Inr pb
               \<and> dist ! k = linalg_norm64 (vsub64 pb pa)
               \<and> rel ! k = vdiv64 (vsub64 pb pa) (dist ! k)"
    by blast
  have step: "edge_features_loop points edges1 edges2 (i # rest) rel0 dist0
        = Inr (rel0 @ (row # rel), dist0 @ (nd # dist))"
    using run pa pb i1 i2 by (simp add: getitem_def nd_def row_def Let_def)
  have all: "\<forall>k < length (i # rest). \<exists>pa pb.
                 np_get points (edges1 ! ((i # rest) ! k)) = Inr pa
               \<and> np_get points (edges2 ! ((i # rest) ! k)) = Inr pb
               \<and> (nd # dist) ! k = linalg_norm64 (vsub64 pb pa)
               \<and> (row # rel) ! k = vdiv64 (vsub64 pb pa) ((nd # dist) ! k)"
  proof (intro allI impI)
    fix k assume k: "k < length (i # rest)"
    show "\<exists>pa pb.
                 np_get points (edges1 ! ((i # rest) ! k)) = Inr pa
               \<and> np_get points (edges2 ! ((i # rest) ! k)) = Inr pb
               \<and> (nd # dist) ! k = linalg_norm64 (vsub64 pb pa)
               \<and> (row # rel) ! k = vdiv64 (vsub64 pb pa) ((nd # dist) ! k)"
    proof (cases k)
      case 0
      then show ?thesis using pa pb by (simp add: nd_def row_def)
    next
      case (Suc j)
      with k have "j < length rest" by simp
      with each Suc show ?thesis by simp
    qed
  qed
  show ?case
    by (rule exI [of _ "row # rel"], rule exI [of _ "nd # dist"])
       (use step all lr ld in simp)
qed

text \<open>
  Claim C10, as the code has it. \<open>generate_edge_features\<close> divides each relative position
  by its float64 norm without a zero guard. If the two edge arrays have the same length and
  every edge end is an index of the point array, the function returns one row and one
  distance for every edge; the distance is the float64 norm of the difference of the two
  points, a number that is not negative or \<open>+inf\<close>, and the row is that difference divided by
  the distance. The distance is at least \<open>2^-537\<close> when the two points differ by \<open>2^-537\<close> or
  more in some coordinate. When they differ by \<open>2^-538\<close> or less in every coordinate (two
  points with the same coordinates, or two points so close that the squares underflow), the
  distance is \<open>0.0\<close> and no entry of the row is a finite number.
\<close>

theorem generate_edge_features_distance:
  assumes "length edges1 = length edges2"
    and "\<forall>i < length edges1. np_index (length points) (edges1 ! i) \<noteq> None
                            \<and> np_index (length points) (edges2 ! i) \<noteq> None"
  shows "\<exists>rel dist. generate_edge_features points edges1 edges2 = Inr (rel, dist)
           \<and> length rel = length edges1 \<and> length dist = length edges1
           \<and> (\<forall>i < length edges1. \<exists>pa pb.
                 np_get points (edges1 ! i) = Inr pa
               \<and> np_get points (edges2 ! i) = Inr pb
               \<and> dist ! i = linalg_norm64 (vsub64 pb pa)
               \<and> rel ! i = vdiv64 (vsub64 pb pa) (dist ! i)
               \<and> at_least 0 (dist ! i)
               \<and> (1 / 2 ^ 537 \<le> max_gap pb pa \<longrightarrow> at_least (1 / 2 ^ 537) (dist ! i))
               \<and> (max_gap pb pa \<le> 1 / 2 ^ 538 \<longrightarrow>
                     dist ! i = Finite 0
                   \<and> \<not> is_finite (fst (rel ! i)) \<and> \<not> is_finite (fst (snd (rel ! i)))
                   \<and> \<not> is_finite (snd (snd (rel ! i)))))"
proof -
  have "\<forall>i \<in> set [0 ..< length edges1]. i < length edges1 \<and> i < length edges2
             \<and> np_index (length points) (edges1 ! i) \<noteq> None
             \<and> np_index (length points) (edges2 ! i) \<noteq> None"
    using assms by simp
  from edge_features_loop_rows [OF this, of "[]" "[]"]
  obtain rel dist where
    run: "edge_features_loop points edges1 edges2 [0 ..< length edges1] [] [] = Inr (rel, dist)"
    and lr: "length rel = length edges1" and ld: "length dist = length edges1"
    and each: "\<forall>k < length [0 ..< length edges1]. \<exists>pa pb.
                 np_get points (edges1 ! ([0 ..< length edges1] ! k)) = Inr pa
               \<and> np_get points (edges2 ! ([0 ..< length edges1] ! k)) = Inr pb
               \<and> dist ! k = linalg_norm64 (vsub64 pb pa)
               \<and> rel ! k = vdiv64 (vsub64 pb pa) (dist ! k)"
    by auto
  have rows: "\<exists>pa pb.
                 np_get points (edges1 ! i) = Inr pa
               \<and> np_get points (edges2 ! i) = Inr pb
               \<and> dist ! i = linalg_norm64 (vsub64 pb pa)
               \<and> rel ! i = vdiv64 (vsub64 pb pa) (dist ! i)
               \<and> at_least 0 (dist ! i)
               \<and> (1 / 2 ^ 537 \<le> max_gap pb pa \<longrightarrow> at_least (1 / 2 ^ 537) (dist ! i))
               \<and> (max_gap pb pa \<le> 1 / 2 ^ 538 \<longrightarrow>
                     dist ! i = Finite 0
                   \<and> \<not> is_finite (fst (rel ! i)) \<and> \<not> is_finite (fst (snd (rel ! i)))
                   \<and> \<not> is_finite (snd (snd (rel ! i))))"
    if i: "i < length edges1" for i
  proof -
    from each i obtain pa pb where pa: "np_get points (edges1 ! i) = Inr pa"
      and pb: "np_get points (edges2 ! i) = Inr pb"
      and d: "dist ! i = linalg_norm64 (vsub64 pb pa)"
      and r: "rel ! i = vdiv64 (vsub64 pb pa) (dist ! i)"
      by auto
    have nn: "at_least 0 (dist ! i)" unfolding d by (rule linalg_norm64_nonneg)
    have far: "1 / 2 ^ 537 \<le> max_gap pb pa \<longrightarrow> at_least (1 / 2 ^ 537) (dist ! i)"
      unfolding d by (rule impI) (rule linalg_norm64_far)
    have close: "max_gap pb pa \<le> 1 / 2 ^ 538 \<longrightarrow>
                     dist ! i = Finite 0
                   \<and> \<not> is_finite (fst (rel ! i)) \<and> \<not> is_finite (fst (snd (rel ! i)))
                   \<and> \<not> is_finite (snd (snd (rel ! i)))"
    proof
      assume "max_gap pb pa \<le> 1 / 2 ^ 538"
      then have z: "dist ! i = Finite 0" unfolding d by (rule linalg_norm64_close)
      obtain x y z' where row: "vdiv64 (vsub64 pb pa) (Finite 0) = (x, y, z')"
        by (cases "vdiv64 (vsub64 pb pa) (Finite 0)")
      from vdiv64_zero_not_finite [OF row] r z row
      show "dist ! i = Finite 0
                   \<and> \<not> is_finite (fst (rel ! i)) \<and> \<not> is_finite (fst (snd (rel ! i)))
                   \<and> \<not> is_finite (snd (snd (rel ! i)))" by simp
    qed
    from pa pb d r nn far close show ?thesis by blast
  qed
  from run lr ld rows show ?thesis
    unfolding generate_edge_features_def by blast
qed

lemma fl_inverse_power2: "k \<le> 1074 \<Longrightarrow> fl (1 / 2 ^ k) = Finite (1 / 2 ^ k)"
proof (rule fl_exact)
  assume "k \<le> 1074"
  then show "round64 (1 / 2 ^ k) = 1 / 2 ^ k" using round64_of_int_div [of 1 k] by simp
  have "\<bar>(1::real) / 2 ^ k\<bar> \<le> 1" by simp
  moreover have "(1::real) < 2 ^ 1024" by (rule one_less_power) simp_all
  ultimately show "\<bar>(1::real) / 2 ^ k\<bar> < 2 ^ 1024" by (rule le_less_trans)
qed

lemma edge_features_line2:
  "generate_edge_features [(0, 0, 0), (2, 0, 0)] [0] [1]
     = Inr ([(Finite 1, Finite 0, Finite 0)], [Finite 2])"
  by (simp add: generate_edge_features_def getitem_def np_get_def np_index_def vdiv64_def
        float_eval)

theorem generate_edge_features_distance_witness:
  "length [0::int] = length [1::int]
   \<and> np_index (length [(0::real, 0::real, 0::real), (2, 0, 0)]) 0 \<noteq> None
   \<and> np_index (length [(0::real, 0::real, 0::real), (2, 0, 0)]) 1 \<noteq> None
   \<and> generate_edge_features [(0, 0, 0), (2, 0, 0)] [0] [1]
       = Inr ([(Finite 1, Finite 0, Finite 0)], [Finite 2])
   \<and> 1 / 2 ^ 537 \<le> max_gap (2, 0, 0) (0, 0, 0)
   \<and> at_least (1 / 2 ^ 537) (Finite 2)"
proof -
  let ?P = "[(0::real, 0::real, 0::real), (2, 0, 0)]"
  have h1: "length [0::int] = length [1::int]" by simp
  have i0: "np_index (length ?P) 0 \<noteq> None" and i1: "np_index (length ?P) 1 \<noteq> None"
    by (simp_all add: np_index_def)
  have h2: "\<forall>i < length [0::int]. np_index (length ?P) ([0] ! i) \<noteq> None
                            \<and> np_index (length ?P) ([1] ! i) \<noteq> None"
    using i0 i1 by simp
  have gap: "1 / 2 ^ 537 \<le> max_gap (2, 0, 0) (0, 0, 0)"
  proof -
    have "(1::real) / 2 ^ 537 \<le> 1" by simp
    then show ?thesis by (simp add: max_gap_def)
  qed
  from generate_edge_features_distance [OF h1 h2] gap
  have "at_least (1 / 2 ^ 537) (Finite 2)"
    unfolding edge_features_line2 by (auto simp: np_get_def np_index_def)
  with h1 i0 i1 edge_features_line2 gap show ?thesis by blast
qed

lemma edge_features_underflow:
  assumes t0: "0 < t" and t1: "t \<le> 1 / 2 ^ 538" and t2: "fl t = Finite t"
  shows "generate_edge_features [(0, 0, 0), (t, 0, 0)] [0] [1]
           = Inr ([(PosInf, NaN, NaN)], [Finite 0])"
proof -
  from t0 t1 have "max_gap (t, 0, 0) (0, 0, 0) \<le> 1 / 2 ^ 538"
    by (simp add: max_gap_def)
  then have n: "linalg_norm64 (vsub64 (t, 0, 0) (0, 0, 0)) = Finite 0"
    by (rule linalg_norm64_close)
  have v: "vsub64 (t, 0, 0) (0, 0, 0) = (Finite t, Finite 0, Finite 0)"
    by (simp add: vsub64_def fsub_def t2 fl_zero)
  have "generate_edge_features [(0, 0, 0), (t, 0, 0)] [0] [1]
       = Inr ([vdiv64 (vsub64 (t, 0, 0) (0, 0, 0)) (Finite 0)], [Finite 0])"
    by (simp add: generate_edge_features_def getitem_def np_get_def np_index_def n Let_def)
  also have "vdiv64 (vsub64 (t, 0, 0) (0, 0, 0)) (Finite 0) = (PosInf, NaN, NaN)"
    unfolding v using t0 by (simp add: vdiv64_def signed_inf_def)
  finally show ?thesis .
qed

lemma joins_distinct_line2: "t \<noteq> 0 \<Longrightarrow> joins_distinct [(0, 0, 0), (t, 0, 0)] 0 1"
  by (simp add: joins_distinct_def np_get_def np_index_def)

text \<open>
  The claim as stated promises a unit vector and a positive distance whenever the two points
  of an edge have different coordinates. The points \<open>(0, 0, 0)\<close> and \<open>(2^-600, 0, 0)\<close> are
  different; the square of \<open>2^-600\<close> underflows to zero, so the distance is \<open>0.0\<close> and the row is
  \<open>[inf, nan, nan]\<close>.
\<close>

theorem generate_edge_features_underflow_counterexample:
  "joins_distinct [(0, 0, 0), (1 / 2 ^ 600, 0, 0)] 0 1
   \<and> generate_edge_features [(0, 0, 0), (1 / 2 ^ 600, 0, 0)] [0] [1]
       = Inr ([(PosInf, NaN, NaN)], [Finite 0])"
proof (rule conjI)
  have pos: "(0::real) < 1 / 2 ^ 600" by (simp only: zero_less_divide_1_iff zero_less_power zero_less_numeral)
  then show "joins_distinct [(0, 0, 0), (1 / 2 ^ 600, 0, 0)] 0 1"
    by (intro joins_distinct_line2) (simp only: less_imp_neq [THEN not_sym] not_False_eq_True)
  have "(2::real) ^ 538 \<le> 2 ^ 600" by (rule power_increasing) simp_all
  then have le: "(1::real) / 2 ^ 600 \<le> 1 / 2 ^ 538"
    by (simp only: frac_le zero_less_power zero_less_numeral zero_le_one order_refl)
  have ex: "fl (1 / 2 ^ 600) = Finite (1 / 2 ^ 600)" by (rule fl_inverse_power2) simp
  show "generate_edge_features [(0, 0, 0), (1 / 2 ^ 600, 0, 0)] [0] [1]
       = Inr ([(PosInf, NaN, NaN)], [Finite 0])"
    by (rule edge_features_underflow [OF pos le ex])
qed
subsection \<open>Loop invariants\<close>

lemma for_loop_inv_idx:
  assumes "for_loop body s xs = Inr s'" and "P 0 s"
    and "\<And>k t t'. k < length xs \<Longrightarrow> P k t \<Longrightarrow> body t (xs ! k) = Inr t' \<Longrightarrow> P (Suc k) t'"
  shows "P (length xs) s'"
  using assms
proof (induction xs arbitrary: s P)
  case Nil
  then show ?case by simp
next
  case (Cons x xs)
  from Cons.prems(1) obtain s1 where b: "body s x = Inr s1" and r: "for_loop body s1 xs = Inr s'"
    by (auto split: sum.splits)
  have p1: "P (Suc 0) s1" using Cons.prems(3) [of 0 s s1] Cons.prems(2) b by simp
  have "(\<lambda>k. P (Suc k)) (length xs) s'"
  proof (rule Cons.IH [OF r, where P = "\<lambda>k. P (Suc k)"])
    show "P (Suc 0) s1" by (rule p1)
  next
    fix k t t' assume "k < length xs" and "P (Suc k) t" and "body t (xs ! k) = Inr t'"
    then show "P (Suc (Suc k)) t'" using Cons.prems(3) [of "Suc k" t t'] by simp
  qed
  then show ?case by simp
qed

lemma for_loop_inv:
  assumes "for_loop body s xs = Inr s'" and "P s"
    and "\<And>x t t'. x \<in> set xs \<Longrightarrow> P t \<Longrightarrow> body t x = Inr t' \<Longrightarrow> P t'"
  shows "P s'"
proof -
  have "(\<lambda>k. P) (length xs) s'"
    using assms(1)
  proof (rule for_loop_inv_idx)
    show "P s" by (rule assms(2))
  next
    fix k t t' assume "k < length xs" and "P t" and "body t (xs ! k) = Inr t'"
    then show "P t'" using assms(3) [of "xs ! k" t t'] by simp
  qed
  then show ?thesis .
qed


subsection \<open>Dijkstra: a finite distance is a path\<close>

definition relax_post ::
  "nat \<Rightarrow> nat list \<Rightarrow> nat \<Rightarrow> int list \<Rightarrow> xreal list \<Rightarrow> xreal list \<Rightarrow> bool" where
  "relax_post n tv cur inb dists d' \<longleftrightarrow>
     length d' = n
   \<and> (\<forall>v<n. d' ! v \<noteq> dists ! v \<longrightarrow>
         v \<in> set tv \<and> int v \<in> set inb \<and> dists ! cur \<noteq> PInf \<and> d' ! v \<noteq> PInf)
   \<and> (\<forall>v<n. dists ! v \<noteq> PInf \<longrightarrow> d' ! v \<noteq> PInf)
   \<and> ((\<forall>v<n. \<forall>r. dists ! v = Fin r \<longrightarrow> 0 \<le> r) \<longrightarrow> (\<forall>v<n. \<forall>r. d' ! v = Fin r \<longrightarrow> 0 \<le> r))"

lemma xless_PInf_iff: "xless a PInf \<longleftrightarrow> a \<noteq> PInf"
  by (cases a) simp_all

lemma xless_not_PInf: "xless a b \<Longrightarrow> a \<noteq> PInf"
  by (cases a) simp_all

lemma alt_Finite:
  assumes "fadd (f64 x) w = Finite r" and "at_least 0 w"
  shows "\<exists>c e. x = Fin c \<and> w = Finite e \<and> 0 \<le> e \<and> fl (c + e) = Finite r"
proof (cases x)
  case (Fin c)
  show ?thesis
  proof (cases w)
    case (Finite e)
    with assms Fin show ?thesis by (simp add: f64_def at_least_def)
  qed (use assms Fin in \<open>simp_all add: f64_def at_least_def\<close>)
next
  case PInf
  with assms show ?thesis by (cases w) (simp_all add: f64_def at_least_def)
qed

lemma fl_Finite_nonneg: "fl x = Finite r \<Longrightarrow> 0 \<le> x \<Longrightarrow> 0 \<le> r"
  using round64_nonneg [of x] by (auto simp: fl_def Let_def split: if_splits)

lemma alt_nonneg:
  assumes "fadd (f64 x) (linalg_norm64 (vsub64 p q)) = Finite r"
    and "\<forall>c. x = Fin c \<longrightarrow> 0 \<le> c"
  shows "x \<noteq> PInf \<and> 0 \<le> r"
proof -
  from alt_Finite [OF assms(1) linalg_norm64_nonneg] obtain c e where
    x: "x = Fin c" and e: "0 \<le> e" and f: "fl (c + e) = Finite r" by blast
  from assms(2) x have "0 \<le> c" by simp
  with e have "0 \<le> c + e" by simp
  with f have "0 \<le> r" by (rule fl_Finite_nonneg)
  with x show ?thesis by simp
qed

lemma relax_cases:
  obtains (same) "relax nodes tv cur (d, p) neib = (d, p)"
  | (update) v alt where "v \<in> set tv" and "neib = int v"
      and "fadd (f64 (d ! cur)) (linalg_norm64 (vsub64 (nodes ! cur) (nodes ! v))) = Finite alt"
      and "xless (Fin alt) (d ! v)"
      and "relax nodes tv cur (d, p) neib = (d[v := Fin alt], p[v := int cur])"
proof (cases "neib \<in> int ` set tv")
  case False
  then have "relax nodes tv cur (d, p) neib = (d, p)" by (simp add: relax_def)
  then show ?thesis by (rule same)
next
  case True
  then obtain v where v: "v \<in> set tv" and e: "neib = int v" by auto
  show ?thesis
  proof (cases "fadd (f64 (d ! cur)) (linalg_norm64 (vsub64 (nodes ! cur) (nodes ! v)))")
    case (Finite alt)
    show ?thesis
    proof (cases "xless (Fin alt) (d ! v)")
      case True
      with Finite v e have "relax nodes tv cur (d, p) neib = (d[v := Fin alt], p[v := int cur])"
        by (simp add: relax_def)
      with v e Finite True show ?thesis by (rule update)
    next
      case False
      with Finite v e have "relax nodes tv cur (d, p) neib = (d, p)" by (simp add: relax_def)
      then show ?thesis by (rule same)
    qed
  next
    case PosInf
    with v e have "relax nodes tv cur (d, p) neib = (d, p)" by (simp add: relax_def)
    then show ?thesis by (rule same)
  next
    case NegInf
    with v e have "relax nodes tv cur (d, p) neib = (d, p)" by (simp add: relax_def)
    then show ?thesis by (rule same)
  next
    case NaN
    with v e have "relax nodes tv cur (d, p) neib = (d, p)" by (simp add: relax_def)
    then show ?thesis by (rule same)
  qed
qed

lemma relax_fold_post:
  assumes len: "length dists = n" and tv: "set tv \<subseteq> {..<n}" and cur: "cur < n"
    and notin: "cur \<notin> set tv"
  shows "relax_post n tv cur inb dists (fst (foldl (relax nodes tv cur) (dists, prevs) inb))"
proof (induction inb rule: rev_induct)
  case Nil
  show ?case using len by (simp add: relax_post_def)
next
  case (snoc neib inb)
  obtain d p where st: "foldl (relax nodes tv cur) (dists, prevs) inb = (d, p)"
    by (cases "foldl (relax nodes tv cur) (dists, prevs) inb")
  from snoc st have ih: "relax_post n tv cur inb dists d" by simp
  from ih have ld: "length d = n" by (simp add: relax_post_def)
  from ih notin cur have dc: "d ! cur = dists ! cur" by (auto simp: relax_post_def)
  define d' where "d' = fst (relax nodes tv cur (d, p) neib)"
  have res: "fst (foldl (relax nodes tv cur) (dists, prevs) (inb @ [neib])) = d'"
    by (simp add: st d'_def)
  show ?case
  proof (cases rule: relax_cases [of nodes tv cur d p neib])
    case same
    then have "d' = d" by (simp add: d'_def)
    then show ?thesis unfolding res using ih by (auto simp: relax_post_def)
  next
    case (update v alt)
    from update(1) tv have vn: "v < n" by auto
    from update(5) have upd: "d' = d[v := Fin alt]" by (simp add: d'_def)
    have curfin: "dists ! cur \<noteq> PInf"
      using alt_Finite [OF update(3) linalg_norm64_nonneg] dc by auto
    have nonneg: "(\<forall>v<n. \<forall>r. d ! v = Fin r \<longrightarrow> 0 \<le> r) \<Longrightarrow> 0 \<le> alt"
    proof -
      assume a: "\<forall>v<n. \<forall>r. d ! v = Fin r \<longrightarrow> 0 \<le> r"
      with cur have "\<forall>c. d ! cur = Fin c \<longrightarrow> 0 \<le> c" by blast
      with alt_nonneg [OF update(3)] show "0 \<le> alt" by blast
    qed
    have nth: "d' ! w = (if w = v then Fin alt else d ! w)" if "w < n" for w
      using that ld vn by (simp add: upd nth_list_update)
    show ?thesis unfolding res relax_post_def
    proof (intro conjI allI impI)
      show "length d' = n" using ld by (simp add: upd)
    next
      fix w assume w: "w < n" and ne: "d' ! w \<noteq> dists ! w"
      show "w \<in> set tv" using ih w ne update(1) nth [OF w]
        by (auto simp: relax_post_def split: if_splits)
      show "int w \<in> set (inb @ [neib])" using ih w ne update(2) nth [OF w]
        by (auto simp: relax_post_def split: if_splits)
      show "dists ! cur \<noteq> PInf" by (rule curfin)
      show "d' ! w \<noteq> PInf" using ih w ne nth [OF w]
        by (auto simp: relax_post_def split: if_splits)
    next
      fix w assume w: "w < n" and f: "dists ! w \<noteq> PInf"
      show "d' ! w \<noteq> PInf" using ih w f nth [OF w] by (auto simp: relax_post_def)
    next
      fix w r assume a: "\<forall>v<n. \<forall>r. dists ! v = Fin r \<longrightarrow> 0 \<le> r" and w: "w < n"
        and f: "d' ! w = Fin r"
      from ih a have dn: "\<forall>v<n. \<forall>r. d ! v = Fin r \<longrightarrow> 0 \<le> r" by (simp add: relax_post_def)
      show "0 \<le> r"
      proof (cases "w = v")
        case True
        with f nth [OF w] have "alt = r" by simp
        with nonneg [OF dn] show ?thesis by simp
      next
        case False
        with f nth [OF w] dn w show ?thesis by auto
      qed
    qed
  qed
qed

lemma relax_fold_source:
  assumes len: "length dists = n" and tv: "set tv \<subseteq> {..<n}" and cur: "cur < n"
    and notin: "cur \<notin> set tv"
    and nonneg: "\<forall>v<n. \<forall>r. dists ! v = Fin r \<longrightarrow> 0 \<le> r"
    and s0: "dists ! s = Fin 0" and sn: "s < n"
  shows "fst (foldl (relax nodes tv cur) (dists, prevs) inb) ! s = Fin 0"
proof (induction inb rule: rev_induct)
  case Nil
  show ?case using s0 by simp
next
  case (snoc x xs)
  obtain dm pm where st: "foldl (relax nodes tv cur) (dists, prevs) xs = (dm, pm)"
    by (cases "foldl (relax nodes tv cur) (dists, prevs) xs")
  from relax_fold_post [OF len tv cur notin, of xs nodes prevs] st
  have pm: "relax_post n tv cur xs dists dm" by simp
  from snoc st have dms: "dm ! s = Fin 0" by simp
  from pm have ldm: "length dm = n" and dmn: "\<forall>v<n. \<forall>r. dm ! v = Fin r \<longrightarrow> 0 \<le> r"
    using nonneg by (simp_all add: relax_post_def)
  have "fst (relax nodes tv cur (dm, pm) x) ! s = Fin 0"
  proof (cases rule: relax_cases [of nodes tv cur dm pm x])
    case same
    then show ?thesis using dms by simp
  next
    case (update v alt)
    from dmn cur have "\<forall>c. dm ! cur = Fin c \<longrightarrow> 0 \<le> c" by blast
    with alt_nonneg [OF update(3)] have a0: "0 \<le> alt" by blast
    have "v \<noteq> s"
    proof
      assume "v = s"
      with update(4) dms have "alt < 0" by simp
      with a0 show False by simp
    qed
    with update(5) dms show ?thesis by simp
  qed
  then show ?case by (simp add: st)
qed

lemma find_min_fold:
  "(fst (foldl (min_step dists tv) (None, PInf) is) = None \<longrightarrow>
       (\<forall>k \<in> set is. dists ! (tv ! k) = PInf))
   \<and> (\<forall>i. fst (foldl (min_step dists tv) (None, PInf) is) = Some i \<longrightarrow>
          i \<in> set is \<and> dists ! (tv ! i) \<noteq> PInf)
   \<and> (fst (foldl (min_step dists tv) (None, PInf) is) = None \<longrightarrow>
          snd (foldl (min_step dists tv) (None, PInf) is) = PInf)"
proof (induction "is" rule: rev_induct)
  case Nil
  show ?case by simp
next
  case (snoc k "is")
  obtain m l where st: "foldl (min_step dists tv) (None, PInf) is = (m, l)"
    by (cases "foldl (min_step dists tv) (None, PInf) is")
  from snoc st have ih1: "m = None \<longrightarrow> (\<forall>k \<in> set is. dists ! (tv ! k) = PInf)"
    and ih2: "\<forall>i. m = Some i \<longrightarrow> i \<in> set is \<and> dists ! (tv ! i) \<noteq> PInf"
    and ih3: "m = None \<longrightarrow> l = PInf" by simp_all
  have step: "foldl (min_step dists tv) (None, PInf) (is @ [k]) =
      (if xless (dists ! (tv ! k)) l then (Some k, dists ! (tv ! k)) else (m, l))"
    by (simp add: st min_step_def)
  show ?case
  proof (cases "xless (dists ! (tv ! k)) l")
    case True
    then have "dists ! (tv ! k) \<noteq> PInf" by (rule xless_not_PInf)
    with True show ?thesis unfolding step by simp
  next
    case False
    have "m = None \<Longrightarrow> dists ! (tv ! k) = PInf"
      using False ih3 xless_PInf_iff [of "dists ! (tv ! k)"] by auto
    with False show ?thesis unfolding step using ih1 ih2 ih3 by auto
  qed
qed

lemma find_min_None: "find_min dists tv = None \<Longrightarrow> v \<in> set tv \<Longrightarrow> dists ! v = PInf"
  using find_min_fold [of dists tv "[0 ..< length tv]"]
  by (auto simp: find_min_def in_set_conv_nth)

lemma find_min_Some: "find_min dists tv = Some i \<Longrightarrow> i < length tv \<and> dists ! (tv ! i) \<noteq> PInf"
  using find_min_fold [of dists tv "[0 ..< length tv]"]
  by (auto simp: find_min_def)

lemma set_delete_nth:
  assumes "distinct xs" and "i < length xs"
  shows "set (take i xs @ drop (Suc i) xs) = set xs - {xs ! i}"
    and "distinct (take i xs @ drop (Suc i) xs)"
proof -
  have xs: "xs = take i xs @ xs ! i # drop (Suc i) xs"
    using assms(2) by (rule id_take_nth_drop)
  have d: "distinct (take i xs @ xs ! i # drop (Suc i) xs)"
    using assms(1) xs by simp
  then show "distinct (take i xs @ drop (Suc i) xs)" by simp
  from d have "xs ! i \<notin> set (take i xs @ drop (Suc i) xs)" by auto
  moreover have "set xs = insert (xs ! i) (set (take i xs @ drop (Suc i) xs))"
    by (subst xs) simp
  ultimately show "set (take i xs @ drop (Suc i) xs) = set xs - {xs ! i}" by auto
qed

lemma np_delete1_pick:
  assumes "distinct tv" and "tv \<noteq> []" and "m = find_min dists tv"
  shows "set (np_delete1 tv m) = set tv - {pick tv m}"
    and "distinct (np_delete1 tv m)"
    and "pick tv m \<in> set tv"
proof -
  show "set (np_delete1 tv m) = set tv - {pick tv m}"
  proof (cases m)
    case None
    have "tv = butlast tv @ [last tv]" using assms(2) by simp
    then have "set tv = insert (last tv) (set (butlast tv))" and "distinct (butlast tv @ [last tv])"
      using assms(1) by (metis list.simps(15) rotate1.simps(2) set_rotate1, simp)
    then show ?thesis using None by (auto simp: np_delete1_def pick_def)
  next
    case (Some i)
    with assms(3) have "i < length tv" using find_min_Some [of dists tv i] by simp
    with assms(1) have "set (take i tv @ drop (Suc i) tv) = set tv - {tv ! i}"
      by (rule set_delete_nth(1))
    with Some show ?thesis by (simp add: np_delete1_def pick_def)
  qed
  show "distinct (np_delete1 tv m)"
  proof (cases m)
    case None
    then show ?thesis using assms(1) by (simp add: np_delete1_def distinct_butlast)
  next
    case (Some i)
    with assms(3) have "i < length tv" using find_min_Some [of dists tv i] by simp
    with assms(1) have "distinct (take i tv @ drop (Suc i) tv)"
      by (rule set_delete_nth(2))
    with Some show ?thesis by (simp add: np_delete1_def)
  qed
  show "pick tv m \<in> set tv"
  proof (cases m)
    case None
    then show ?thesis using assms(2) by (simp add: pick_def)
  next
    case (Some i)
    with assms(3) have "i < length tv" using find_min_Some [of dists tv i] by simp
    with Some show ?thesis by (simp add: pick_def)
  qed
qed

definition dij_inv ::
  "nat \<Rightarrow> (nat \<times> nat) set \<Rightarrow> nat \<Rightarrow> nat list \<Rightarrow> xreal list \<Rightarrow> bool" where
  "dij_inv n E s tv dists \<longleftrightarrow>
     distinct tv \<and> set tv \<subseteq> {..<n} \<and> length dists = n \<and> s < n
   \<and> dists ! s = Fin 0
   \<and> (\<forall>v<n. dists ! v \<noteq> PInf \<longrightarrow> (s, v) \<in> E\<^sup>*)
   \<and> (\<forall>v<n. \<forall>r. dists ! v = Fin r \<longrightarrow> 0 \<le> r)
   \<and> ((\<exists>u<n. u \<notin> set tv \<and> dists ! u = PInf) \<longrightarrow> (\<forall>v \<in> set tv. dists ! v = PInf))"

lemma dij_inv_step:
  assumes inv: "dij_inv n (dijkstra_edges n b_edges) s tv dists" and ne: "tv \<noteq> []"
    and m: "m = find_min dists tv" and c: "cur = pick tv m" and t: "tv' = np_delete1 tv m"
    and i: "inb = map snd (filter (\<lambda>e. fst e = int cur) b_edges)"
    and d: "d' = fst (foldl (relax nodes tv' cur) (dists, prevs) inb)"
  shows "dij_inv n (dijkstra_edges n b_edges) s tv' d'"
proof -
  let ?E = "dijkstra_edges n b_edges"
  from inv [unfolded dij_inv_def] have dist: "distinct tv" and sub: "set tv \<subseteq> {..<n}" and len: "length dists = n"
    and sn: "s < n" and s0: "dists ! s = Fin 0"
    and reach: "\<forall>v<n. dists ! v \<noteq> PInf \<longrightarrow> (s, v) \<in> ?E\<^sup>*"
    and nonneg: "\<forall>v<n. \<forall>r. dists ! v = Fin r \<longrightarrow> 0 \<le> r"
    and late: "(\<exists>u<n. u \<notin> set tv \<and> dists ! u = PInf) \<longrightarrow> (\<forall>v \<in> set tv. dists ! v = PInf)"
    by blast+
  from np_delete1_pick [OF dist ne m] c t
  have tv': "set tv' = set tv - {cur}" and dist': "distinct tv'" and curin: "cur \<in> set tv"
    by simp_all
  from curin sub have curn: "cur < n" by auto
  from tv' sub have sub': "set tv' \<subseteq> {..<n}" by auto
  from tv' have notin: "cur \<notin> set tv'" by simp
  from relax_fold_post [OF len sub' curn notin, of inb nodes prevs] d
  have post: "relax_post n tv' cur inb dists d'" by simp
  then have len': "length d' = n"
    and chg: "\<forall>v<n. d' ! v \<noteq> dists ! v \<longrightarrow>
         v \<in> set tv' \<and> int v \<in> set inb \<and> dists ! cur \<noteq> PInf \<and> d' ! v \<noteq> PInf"
    and mono: "\<forall>v<n. dists ! v \<noteq> PInf \<longrightarrow> d' ! v \<noteq> PInf"
    and nonneg': "\<forall>v<n. \<forall>r. d' ! v = Fin r \<longrightarrow> 0 \<le> r"
    using nonneg by (simp_all add: relax_post_def)
  have inb_edge: "int v \<in> set inb \<longleftrightarrow> (int cur, int v) \<in> set b_edges" for v
    by (force simp: i)
  have curfin_cases: "dists ! cur = PInf \<Longrightarrow> \<forall>v \<in> set tv. dists ! v = PInf"
  proof (cases m)
    case None
    then show ?thesis using m find_min_None [of dists tv] by auto
  next
    case (Some k)
    assume inf: "dists ! cur = PInf"
    from Some m have "dists ! (tv ! k) \<noteq> PInf" using find_min_Some [of dists tv k] by simp
    with Some c inf show ?thesis by (simp add: pick_def)
  qed
  have s0': "d' ! s = Fin 0"
    unfolding d by (rule relax_fold_source [OF len sub' curn notin nonneg s0 sn])
  have curreach: "dists ! cur \<noteq> PInf \<Longrightarrow> (s, cur) \<in> ?E\<^sup>*"
    using reach curn by blast
  have reach': "\<forall>v<n. d' ! v \<noteq> PInf \<longrightarrow> (s, v) \<in> ?E\<^sup>*"
  proof (intro allI impI)
    fix v assume v: "v < n" and f: "d' ! v \<noteq> PInf"
    show "(s, v) \<in> ?E\<^sup>*"
    proof (cases "d' ! v = dists ! v")
      case True
      with f reach v show ?thesis by simp
    next
      case False
      with chg v have "int v \<in> set inb" and cf: "dists ! cur \<noteq> PInf" by blast+
      then have "(cur, v) \<in> ?E" using inb_edge v curn by (simp add: dijkstra_edges_def)
      with curreach [OF cf] show ?thesis by (rule rtrancl_into_rtrancl)
    qed
  qed
  have late': "(\<exists>u<n. u \<notin> set tv' \<and> d' ! u = PInf) \<longrightarrow> (\<forall>v \<in> set tv'. d' ! v = PInf)"
  proof (intro impI ballI)
    fix v assume ex: "\<exists>u<n. u \<notin> set tv' \<and> d' ! u = PInf" and v: "v \<in> set tv'"
    from ex obtain u where u: "u < n" and ut: "u \<notin> set tv'" and ui: "d' ! u = PInf" by blast
    from chg u ut have same: "d' ! u = dists ! u" by blast
    have cinf: "dists ! cur = PInf"
    proof (cases "u = cur")
      case True
      with ui same show ?thesis by simp
    next
      case False
      with ut tv' have "u \<notin> set tv" by simp
      with u ui same have "\<exists>u<n. u \<notin> set tv \<and> dists ! u = PInf" by auto
      with late have "\<forall>v \<in> set tv. dists ! v = PInf" by (rule mp)
      with curin show ?thesis by blast
    qed
    from v tv' have "v \<in> set tv" by simp
    with curfin_cases [OF cinf] have vinf: "dists ! v = PInf" by blast
    from v sub' have vn: "v < n" by auto
    have "d' ! v = dists ! v"
    proof (rule ccontr)
      assume "d' ! v \<noteq> dists ! v"
      with chg vn have "dists ! cur \<noteq> PInf" by (elim allE [of _ v]) simp
      with cinf show False by simp
    qed
    with vinf show "d' ! v = PInf" by simp
  qed
  show ?thesis
    unfolding dij_inv_def
    by (intro conjI dist' sub' len' sn s0' reach' nonneg' late')
qed

lemma dij_inv_init:
  assumes "s < n"
  shows "dij_inv n E s [0 ..< n] ((replicate n PInf)[s := Fin 0])"
  using assms by (auto simp: dij_inv_def nth_list_update)

lemma dij_inv_loop:
  "dij_inv n (dijkstra_edges n b_edges) s tv dists \<Longrightarrow>
   dij_inv n (dijkstra_edges n b_edges) s [] (fst (dijkstra_loop nodes b_edges tv dists prevs))"
proof (induction nodes b_edges tv dists prevs rule: dijkstra_loop.induct)
  case (1 nodes b_edges tovisit dists prevs)
  show ?case
  proof (cases "tovisit = []")
    case True
    with "1.prems" show ?thesis by (simp add: dijkstra_loop.simps)
  next
    case False
    define m where "m = find_min dists tovisit"
    define cur where "cur = pick tovisit m"
    define tv' where "tv' = np_delete1 tovisit m"
    define inb where "inb = map snd (filter (\<lambda>e. fst e = int cur) b_edges)"
    define st where "st = foldl (relax nodes tv' cur) (dists, prevs) inb"
    have step: "dij_inv n (dijkstra_edges n b_edges) s tv' (fst st)"
      by (rule dij_inv_step [OF "1.prems" False m_def cur_def tv'_def inb_def])
         (simp add: st_def)
    have unf: "dijkstra_loop nodes b_edges tovisit dists prevs
        = dijkstra_loop nodes b_edges tv' (fst st) (snd st)"
      using False
      by (subst dijkstra_loop.simps) (simp add: Let_def m_def cur_def tv'_def inb_def st_def)
    from "1.IH" [OF False m_def cur_def tv'_def inb_def st_def step]
    show ?thesis by (simp only: unf)
  qed
qed

subsection \<open>Dijkstra without overflow: every path gives a finite distance\<close>

text \<open>
  When the float64 length of every edge is at most \<open>2^k\<close> and \<open>n * 2^k\<close> is below \<open>2^1024\<close>,
  no sum \<open>alt\<close> overflows: after \<open>j\<close> points have left the queue every finite distance is at
  most \<open>j * 2^k\<close>, a float64 number, and rounding is monotone.
\<close>

lemma bound_exact:
  assumes "int j < 2 ^ 53" and "- 1074 \<le> k"
  shows "round64 (real j * 2 powi k) = real j * 2 powi k"
  using round64_dyadic [of "int j" k] assms by simp

lemma relax_fold_bounded:
  assumes len: "length dists = n" and tv: "set tv \<subseteq> {..<n}" and cur: "cur < n"
    and notin: "cur \<notin> set tv"
    and c: "dists ! cur = Fin c" and c0: "0 \<le> c" and cb: "c \<le> real j * 2 powi k"
    and short: "\<forall>v \<in> set tv. int v \<in> set inb \<longrightarrow>
                  (\<exists>w \<le> 2 powi k. linalg_norm64 (vsub64 (nodes ! cur) (nodes ! v)) = Finite w)"
    and bnd: "\<forall>v<n. \<forall>a. dists ! v = Fin a \<longrightarrow> a \<le> real (Suc j) * 2 powi k"
    and j: "int (Suc j) < 2 ^ 53" and k: "- 1074 \<le> k"
    and top: "real (Suc j) * 2 powi k < 2 ^ 1024"
  shows "(\<forall>v<n. \<forall>a. fst (foldl (relax nodes tv cur) (dists, prevs) inb) ! v = Fin a
            \<longrightarrow> a \<le> real (Suc j) * 2 powi k)
       \<and> (\<forall>v \<in> set tv. int v \<in> set inb
            \<longrightarrow> fst (foldl (relax nodes tv cur) (dists, prevs) inb) ! v \<noteq> PInf)"
  using short
proof (induction inb rule: rev_induct)
  case Nil
  show ?case using bnd by simp
next
  case (snoc neib inb)
  obtain d p where st: "foldl (relax nodes tv cur) (dists, prevs) inb = (d, p)"
    by (cases "foldl (relax nodes tv cur) (dists, prevs) inb")
  from snoc.prems have "\<forall>v \<in> set tv. int v \<in> set inb \<longrightarrow>
                  (\<exists>w \<le> 2 powi k. linalg_norm64 (vsub64 (nodes ! cur) (nodes ! v)) = Finite w)"
    by simp
  from snoc.IH [OF this] st
  have ihb: "\<forall>v<n. \<forall>a. d ! v = Fin a \<longrightarrow> a \<le> real (Suc j) * 2 powi k"
    and ihf: "\<forall>v \<in> set tv. int v \<in> set inb \<longrightarrow> d ! v \<noteq> PInf" by simp_all
  from relax_fold_post [OF len tv cur notin, of inb nodes prevs] st
  have post: "relax_post n tv cur inb dists d" by simp
  then have ld: "length d = n" by (simp add: relax_post_def)
  from post notin cur have dc: "d ! cur = Fin c" using c by (auto simp: relax_post_def)
  define d' where "d' = fst (relax nodes tv cur (d, p) neib)"
  have res: "fst (foldl (relax nodes tv cur) (dists, prevs) (inb @ [neib])) = d'"
    by (simp add: st d'_def)
  have alt: "\<exists>r. fadd (f64 (d ! cur)) (linalg_norm64 (vsub64 (nodes ! cur) (nodes ! v))) = Finite r
               \<and> 0 \<le> r \<and> r \<le> real (Suc j) * 2 powi k"
    if v: "v \<in> set tv" and e: "neib = int v" for v
  proof -
    from snoc.prems v e obtain w where w: "w \<le> 2 powi k"
      and nw: "linalg_norm64 (vsub64 (nodes ! cur) (nodes ! v)) = Finite w" by auto
    from linalg_norm64_nonneg [of "nodes ! cur" "nodes ! v"] nw have w0: "0 \<le> w"
      by (simp add: at_least_def)
    have up: "c + w \<le> real (Suc j) * 2 powi k"
    proof -
      have "c + w \<le> real j * 2 powi k + 2 powi k" using cb w by linarith
      also have "\<dots> = real (Suc j) * 2 powi k" by (simp add: algebra_simps)
      finally show ?thesis .
    qed
    have lo: "0 \<le> c + w" using c0 w0 by simp
    have m1: "- (2 ^ 1024) < (0::real)" by simp
    from fl_between [OF round64_zero bound_exact [OF j k] lo up m1 top]
    obtain r where "fl (c + w) = Finite r" and "0 \<le> r" and "r \<le> real (Suc j) * 2 powi k"
      by blast
    then show ?thesis by (simp add: dc nw f64_def)
  qed
  show ?case
  proof (cases rule: relax_cases [of nodes tv cur d p neib])
    case same
    then have same': "d' = d" by (simp add: d'_def)
    have "d ! v \<noteq> PInf" if v: "v \<in> set tv" and e: "int v = neib" for v
    proof
      assume inf: "d ! v = PInf"
      from alt [OF v e [symmetric]] obtain r where
        r: "fadd (f64 (d ! cur)) (linalg_norm64 (vsub64 (nodes ! cur) (nodes ! v))) = Finite r"
        by blast
      from v e have "neib \<in> int ` set tv" by auto
      with r e inf have "relax nodes tv cur (d, p) neib = (d[v := Fin r], p[v := int cur])"
        by (auto simp: relax_def)
      with same have "d[v := Fin r] = d" by simp
      then have "d[v := Fin r] ! v = d ! v" by simp
      moreover from v tv ld have "v < length d" by auto
      ultimately show False using inf by simp
    qed
    with ihb ihf show ?thesis unfolding res same' by auto
  next
    case (update v a)
    from update(1) tv have vn: "v < n" by auto
    from update(5) have upd: "d' = d[v := Fin a]" by (simp add: d'_def)
    from alt [OF update(1,2)] update(3) have ab: "a \<le> real (Suc j) * 2 powi k" by simp
    have nth: "d' ! w = (if w = v then Fin a else d ! w)" if "w < n" for w
      using that ld vn by (simp add: upd nth_list_update)
    show ?thesis unfolding res
    proof (intro conjI allI impI ballI)
      fix w b assume w: "w < n" and f: "d' ! w = Fin b"
      show "b \<le> real (Suc j) * 2 powi k"
        using nth [OF w] f ab ihb w by (auto split: if_splits)
    next
      fix w assume wt: "w \<in> set tv" and wi: "int w \<in> set (inb @ [neib])"
      from wt tv have w: "w < n" by auto
      show "d' ! w \<noteq> PInf"
      proof (cases "w = v")
        case True
        then show ?thesis using nth [OF w] by simp
      next
        case False
        with wi update(2) have "int w \<in> set inb" by auto
        with ihf wt have "d ! w \<noteq> PInf" by blast
        with False nth [OF w] show ?thesis by simp
      qed
    qed
  qed
qed

definition dij_closed ::
  "nat \<Rightarrow> (nat \<times> nat) set \<Rightarrow> int \<Rightarrow> nat list \<Rightarrow> xreal list \<Rightarrow> bool" where
  "dij_closed n E k tv dists \<longleftrightarrow>
     (\<forall>v<n. \<forall>a. dists ! v = Fin a \<longrightarrow> a \<le> real (n - length tv) * 2 powi k)
   \<and> (\<forall>u<n. u \<notin> set tv \<longrightarrow> dists ! u \<noteq> PInf \<longrightarrow> (\<forall>v. (u, v) \<in> E \<longrightarrow> dists ! v \<noteq> PInf))"

lemma dij_closed_step:
  assumes inv: "dij_inv n (dijkstra_edges n b_edges) s tv dists"
    and cl: "dij_closed n (dijkstra_edges n b_edges) k tv dists"
    and short: "\<forall>(u, v) \<in> dijkstra_edges n b_edges.
                  \<exists>w \<le> 2 powi k. linalg_norm64 (vsub64 (nodes ! u) (nodes ! v)) = Finite w"
    and n53: "int n < 2 ^ 53" and k: "- 1074 \<le> k" and top: "real n * 2 powi k < 2 ^ 1024"
    and ne: "tv \<noteq> []"
    and m: "m = find_min dists tv" and c: "cur = pick tv m" and t: "tv' = np_delete1 tv m"
    and i: "inb = map snd (filter (\<lambda>e. fst e = int cur) b_edges)"
    and d: "d' = fst (foldl (relax nodes tv' cur) (dists, prevs) inb)"
  shows "dij_closed n (dijkstra_edges n b_edges) k tv' d'"
proof -
  let ?E = "dijkstra_edges n b_edges"
  from inv [unfolded dij_inv_def] have dist: "distinct tv" and sub: "set tv \<subseteq> {..<n}"
    and len: "length dists = n"
    and nonneg: "\<forall>v<n. \<forall>r. dists ! v = Fin r \<longrightarrow> 0 \<le> r"
    and late: "(\<exists>u<n. u \<notin> set tv \<and> dists ! u = PInf) \<longrightarrow> (\<forall>v \<in> set tv. dists ! v = PInf)"
    by blast+
  from cl [unfolded dij_closed_def]
  have bnd: "\<forall>v<n. \<forall>a. dists ! v = Fin a \<longrightarrow> a \<le> real (n - length tv) * 2 powi k"
    and closed: "\<forall>u<n. u \<notin> set tv \<longrightarrow> dists ! u \<noteq> PInf \<longrightarrow> (\<forall>v. (u, v) \<in> ?E \<longrightarrow> dists ! v \<noteq> PInf)"
    by blast+
  from np_delete1_pick [OF dist ne m] c t
  have tv': "set tv' = set tv - {cur}" and dist': "distinct tv'" and curin: "cur \<in> set tv"
    by simp_all
  from curin sub have curn: "cur < n" by auto
  from tv' sub have sub': "set tv' \<subseteq> {..<n}" by auto
  from tv' have notin: "cur \<notin> set tv'" by simp
  define j where "j = n - length tv"
  have lt: "length tv \<le> n"
  proof -
    have "length tv = card (set tv)" using dist by (simp add: distinct_card)
    also have "\<dots> \<le> card {..<n}" using sub by (intro card_mono) simp_all
    finally show ?thesis by simp
  qed
  have ltv': "Suc (length tv') = length tv"
  proof -
    have "length tv' = card (set tv')" using dist' by (simp add: distinct_card)
    also have "\<dots> = card (set tv) - 1" using tv' curin by simp
    also have "card (set tv) = length tv" using dist by (simp add: distinct_card)
    finally show ?thesis using ne by (cases tv) simp_all
  qed
  have j': "n - length tv' = Suc j" using lt ltv' by (simp add: j_def)
  have sj: "Suc j \<le> n" using j' by simp
  then have j53: "int (Suc j) < 2 ^ 53" using n53 by linarith
  have p: "0 < (2::real) powi k" by simp
  have "real (Suc j) * 2 powi k \<le> real n * 2 powi k"
    using sj p by (intro mult_right_mono) simp_all
  with top have jtop: "real (Suc j) * 2 powi k < 2 ^ 1024" by linarith
  have jle: "real j * 2 powi k \<le> real (Suc j) * 2 powi k"
    using p by (intro mult_right_mono) simp_all
  from bnd have bnd_j: "\<forall>v<n. \<forall>a. dists ! v = Fin a \<longrightarrow> a \<le> real j * 2 powi k"
    by (simp add: j_def)
  with jle have bnd_sj: "\<forall>v<n. \<forall>a. dists ! v = Fin a \<longrightarrow> a \<le> real (Suc j) * 2 powi k"
    by (meson order_trans)
  from relax_fold_post [OF len sub' curn notin, of inb nodes prevs] d
  have post: "relax_post n tv' cur inb dists d'" by simp
  then have chg: "\<forall>v<n. d' ! v \<noteq> dists ! v \<longrightarrow>
         v \<in> set tv' \<and> int v \<in> set inb \<and> dists ! cur \<noteq> PInf \<and> d' ! v \<noteq> PInf"
    and mono: "\<forall>v<n. dists ! v \<noteq> PInf \<longrightarrow> d' ! v \<noteq> PInf"
    by (simp_all add: relax_post_def)
  have inb_edge: "int v \<in> set inb \<longleftrightarrow> (int cur, int v) \<in> set b_edges" for v
    by (force simp: i)
  have nolate: "dists ! cur \<noteq> PInf \<Longrightarrow> u < n \<Longrightarrow> u \<notin> set tv \<Longrightarrow> dists ! u \<noteq> PInf" for u
    using late curin by blast
  have both: "(\<forall>v<n. \<forall>a. d' ! v = Fin a \<longrightarrow> a \<le> real (Suc j) * 2 powi k)
       \<and> (dists ! cur \<noteq> PInf \<longrightarrow> (\<forall>v \<in> set tv'. int v \<in> set inb \<longrightarrow> d' ! v \<noteq> PInf))"
  proof (cases "dists ! cur")
    case PInf
    with chg have "\<forall>v<n. d' ! v = dists ! v" by blast
    with bnd_sj PInf show ?thesis by simp
  next
    case (Fin cd)
    with nonneg curn have c0: "0 \<le> cd" by blast
    from bnd_j Fin curn have cb: "cd \<le> real j * 2 powi k" by blast
    have sh: "\<forall>v \<in> set tv'. int v \<in> set inb \<longrightarrow>
                  (\<exists>w \<le> 2 powi k. linalg_norm64 (vsub64 (nodes ! cur) (nodes ! v)) = Finite w)"
    proof (intro ballI impI)
      fix v assume v: "v \<in> set tv'" and vi: "int v \<in> set inb"
      from v sub' have "v < n" by auto
      with vi curn have "(cur, v) \<in> ?E" using inb_edge by (simp add: dijkstra_edges_def)
      with short show "\<exists>w \<le> 2 powi k. linalg_norm64 (vsub64 (nodes ! cur) (nodes ! v)) = Finite w"
        by blast
    qed
    from relax_fold_bounded [OF len sub' curn notin Fin c0 cb sh bnd_sj j53 k jtop, of prevs]
    show ?thesis unfolding d by blast
  qed
  then have bnd': "\<forall>v<n. \<forall>a. d' ! v = Fin a \<longrightarrow> a \<le> real (n - length tv') * 2 powi k"
    and fin_done: "dists ! cur \<noteq> PInf \<longrightarrow> (\<forall>v \<in> set tv'. int v \<in> set inb \<longrightarrow> d' ! v \<noteq> PInf)"
    by (simp_all add: j')
  have closed': "\<forall>u<n. u \<notin> set tv' \<longrightarrow> d' ! u \<noteq> PInf \<longrightarrow> (\<forall>v. (u, v) \<in> ?E \<longrightarrow> d' ! v \<noteq> PInf)"
  proof (intro allI impI)
    fix u v assume u: "u < n" and ut: "u \<notin> set tv'" and uf: "d' ! u \<noteq> PInf" and e: "(u, v) \<in> ?E"
    from e have vn: "v < n" and eb: "(int u, int v) \<in> set b_edges" by (simp_all add: dijkstra_edges_def)
    from chg u ut have same: "d' ! u = dists ! u" by blast
    show "d' ! v \<noteq> PInf"
    proof (cases "u = cur")
      case False
      with ut tv' have "u \<notin> set tv" by simp
      with closed u uf same e have "dists ! v \<noteq> PInf" by simp
      with mono vn show ?thesis by simp
    next
      case True
      with uf same have cf: "dists ! cur \<noteq> PInf" by simp
      from eb True have vin: "int v \<in> set inb" using inb_edge by simp
      show ?thesis
      proof (cases "v \<in> set tv'")
        case True
        with fin_done cf vin show ?thesis by simp
      next
        case False
        show ?thesis
        proof (cases "v = cur")
          case True
          with cf mono curn show ?thesis by simp
        next
          case False
          with \<open>v \<notin> set tv'\<close> tv' have "v \<notin> set tv" by simp
          from nolate [OF cf vn this] mono vn show ?thesis by simp
        qed
      qed
    qed
  qed
  show ?thesis unfolding dij_closed_def by (intro conjI bnd' closed')
qed

lemma dij_closed_init:
  assumes "s < n"
  shows "dij_closed n E k [0 ..< n] ((replicate n PInf)[s := Fin 0])"
  using assms by (auto simp: dij_closed_def nth_list_update split: if_splits)

lemma dij_closed_loop:
  assumes short: "\<forall>(u, v) \<in> dijkstra_edges n b_edges.
                  \<exists>w \<le> 2 powi k. linalg_norm64 (vsub64 (nodes ! u) (nodes ! v)) = Finite w"
    and n53: "int n < 2 ^ 53" and k: "- 1074 \<le> k" and top: "real n * 2 powi k < 2 ^ 1024"
  shows "dij_inv n (dijkstra_edges n b_edges) s tv dists \<Longrightarrow>
         dij_closed n (dijkstra_edges n b_edges) k tv dists \<Longrightarrow>
         dij_closed n (dijkstra_edges n b_edges) k [] (fst (dijkstra_loop nodes b_edges tv dists prevs))"
  using short
proof (induction nodes b_edges tv dists prevs rule: dijkstra_loop.induct)
  case (1 nodes b_edges tovisit dists prevs)
  show ?case
  proof (cases "tovisit = []")
    case True
    with "1.prems" show ?thesis by (simp add: dijkstra_loop.simps)
  next
    case False
    define m where "m = find_min dists tovisit"
    define cur where "cur = pick tovisit m"
    define tv' where "tv' = np_delete1 tovisit m"
    define inb where "inb = map snd (filter (\<lambda>e. fst e = int cur) b_edges)"
    define st where "st = foldl (relax nodes tv' cur) (dists, prevs) inb"
    have fs: "fst st = fst (foldl (relax nodes tv' cur) (dists, prevs) inb)" by (simp add: st_def)
    have step: "dij_inv n (dijkstra_edges n b_edges) s tv' (fst st)"
      by (rule dij_inv_step [OF "1.prems"(1) False m_def cur_def tv'_def inb_def fs])
    have cstep: "dij_closed n (dijkstra_edges n b_edges) k tv' (fst st)"
      by (rule dij_closed_step [OF "1.prems"(1,2,3) n53 k top False m_def cur_def tv'_def inb_def fs])
    have unf: "dijkstra_loop nodes b_edges tovisit dists prevs
        = dijkstra_loop nodes b_edges tv' (fst st) (snd st)"
      using False
      by (subst dijkstra_loop.simps) (simp add: Let_def m_def cur_def tv'_def inb_def st_def)
    from "1.IH" [OF False m_def cur_def tv'_def inb_def st_def step cstep "1.prems"(3)]
    show ?thesis by (simp only: unf)
  qed
qed

lemma dij_inv_final:
  assumes inv: "dij_inv n E s [] d"
  shows "length d = n" and "d ! s = Fin 0"
    and "(\<exists>v<n. (s, v) \<notin> E\<^sup>*) \<Longrightarrow> PInf \<in> set d"
    and "PInf \<notin> set d \<Longrightarrow> v < n \<Longrightarrow> (s, v) \<in> E\<^sup>*"
proof -
  from inv [unfolded dij_inv_def] show len: "length d = n" and "d ! s = Fin 0" by blast+
  from inv [unfolded dij_inv_def] have reach: "\<forall>v<n. d ! v \<noteq> PInf \<longrightarrow> (s, v) \<in> E\<^sup>*" by blast
  show "PInf \<in> set d" if "\<exists>v<n. (s, v) \<notin> E\<^sup>*"
  proof -
    from that obtain v where v: "v < n" and "(s, v) \<notin> E\<^sup>*" by blast
    with reach have "d ! v = PInf" by blast
    with v len show ?thesis by (metis nth_mem)
  qed
  show "(s, v) \<in> E\<^sup>*" if "PInf \<notin> set d" and "v < n"
  proof -
    from that len have "d ! v \<noteq> PInf" by (metis nth_mem)
    with reach that show ?thesis by blast
  qed
qed

lemma dij_closed_final:
  assumes inv: "dij_inv n (dijkstra_edges n b_edges) s [] d"
    and cl: "dij_closed n (dijkstra_edges n b_edges) k [] d"
    and inf: "PInf \<in> set d"
  shows "\<exists>v<n. (s, v) \<notin> (dijkstra_edges n b_edges)\<^sup>*"
proof -
  let ?E = "dijkstra_edges n b_edges"
  from inv [unfolded dij_inv_def] have len: "length d = n" and sn: "s < n"
    and s0: "d ! s = Fin 0" by blast+
  from cl [unfolded dij_closed_def]
  have closed: "\<forall>u<n. u \<notin> set [] \<longrightarrow> d ! u \<noteq> PInf \<longrightarrow> (\<forall>v. (u, v) \<in> ?E \<longrightarrow> d ! v \<noteq> PInf)"
    by blast
  have fin: "(s, v) \<in> ?E\<^sup>* \<Longrightarrow> d ! v \<noteq> PInf" for v
  proof (induction rule: rtrancl_induct)
    case base
    show ?case using s0 by simp
  next
    case (step u w)
    from step.hyps(2) have "u < n" by (simp add: dijkstra_edges_def)
    with closed step.IH step.hyps(2) show ?case by simp
  qed
  from inf obtain v where "v < n" and "d ! v = PInf"
    using len by (auto simp: in_set_conv_nth)
  with fin [of v] show ?thesis by blast
qed

lemma np_index_lt: "np_index n i = Some s \<Longrightarrow> s < n"
  by (auto simp: np_index_def split: if_splits)

text \<open>
  Claim C3, as the code has it. For a graph whose two edge arrays have the same length and a
  source index inside the point array, \<open>dijkstra_algorithm\<close> raises its error exactly when
  a distance is still infinite after the queue has emptied. That is the case whenever some
  point cannot be reached from the source along directed edges. When the function returns,
  every point can be reached, no distance is infinite and the distance of the source is 0.
  A point that can be reached keeps an infinite distance when the float64 length of its
  path overflows; when every edge has a float64 length of at most \<open>2^k\<close> and \<open>n * 2^k < 2^1024\<close>
  for the \<open>n < 2^53\<close> points, nothing overflows, and the error is raised exactly when some
  point cannot be reached.
\<close>

theorem dijkstra_raises_iff_infinite:
  assumes "length edges1 = length edges2" and "np_index (length nodes) index = Some s"
  shows "(dijkstra_algorithm nodes edges1 edges2 index = Inl InfiniteDistance
            \<longleftrightarrow> PInf \<in> set (fst (dijkstra_loop nodes (zip edges1 edges2) [0 ..< length nodes]
                                   ((replicate (length nodes) PInf)[s := Fin 0])
                                   (replicate (length nodes) (- 1)))))
       \<and> ((\<exists>v<length nodes. (s, v) \<notin> (dijkstra_edges (length nodes) (zip edges1 edges2))\<^sup>*)
            \<longrightarrow> dijkstra_algorithm nodes edges1 edges2 index = Inl InfiniteDistance)
       \<and> (\<forall>dists prevs. dijkstra_algorithm nodes edges1 edges2 index = Inr (dists, prevs)
            \<longrightarrow> length dists = length nodes \<and> PInf \<notin> set dists \<and> dists ! s = Fin 0
              \<and> (\<forall>v<length nodes. (s, v) \<in> (dijkstra_edges (length nodes) (zip edges1 edges2))\<^sup>*))
       \<and> (short_edges nodes (zip edges1 edges2) k \<and> - 1074 \<le> k
            \<and> int (length nodes) < 2 ^ 53 \<and> real (length nodes) * 2 powi k < 2 ^ 1024
            \<longrightarrow> (dijkstra_algorithm nodes edges1 edges2 index = Inl InfiniteDistance
                    \<longleftrightarrow> (\<exists>v<length nodes. (s, v) \<notin> (dijkstra_edges (length nodes) (zip edges1 edges2))\<^sup>*))
              \<and> ((\<forall>v<length nodes. (s, v) \<in> (dijkstra_edges (length nodes) (zip edges1 edges2))\<^sup>*)
                    \<longrightarrow> (\<exists>dists prevs. dijkstra_algorithm nodes edges1 edges2 index
                                          = Inr (dists, prevs))))"
proof -
  let ?n = "length nodes"
  let ?E = "dijkstra_edges ?n (zip edges1 edges2)"
  let ?d0 = "(replicate ?n PInf)[s := Fin 0]"
  let ?r = "dijkstra_loop nodes (zip edges1 edges2) [0 ..< ?n] ?d0 (replicate ?n (- 1))"
  from assms(2) have sn: "s < ?n" by (rule np_index_lt)
  have inv: "dij_inv ?n ?E s [] (fst ?r)"
    by (rule dij_inv_loop [OF dij_inv_init [OF sn]])
  obtain d p where r: "?r = (d, p)" by (cases ?r)
  from inv r have invd: "dij_inv ?n ?E s [] d" by simp
  have alg: "dijkstra_algorithm nodes edges1 edges2 index
      = (if PInf \<in> set d then Inl InfiniteDistance else Inr (d, p))"
    using assms r by (simp add: dijkstra_algorithm_def Let_def)
  have A: "dijkstra_algorithm nodes edges1 edges2 index = Inl InfiniteDistance
            \<longleftrightarrow> PInf \<in> set (fst ?r)"
    unfolding alg r by simp
  have B: "(\<exists>v<?n. (s, v) \<notin> ?E\<^sup>*)
            \<longrightarrow> dijkstra_algorithm nodes edges1 edges2 index = Inl InfiniteDistance"
    unfolding alg using dij_inv_final(3) [OF invd] by simp
  have C: "\<forall>dists prevs. dijkstra_algorithm nodes edges1 edges2 index = Inr (dists, prevs)
            \<longrightarrow> length dists = ?n \<and> PInf \<notin> set dists \<and> dists ! s = Fin 0
              \<and> (\<forall>v<?n. (s, v) \<in> ?E\<^sup>*)"
  proof (intro allI impI)
    fix dists prevs
    assume "dijkstra_algorithm nodes edges1 edges2 index = Inr (dists, prevs)"
    then have ni: "PInf \<notin> set d" and dd: "dists = d" unfolding alg by (auto split: if_splits)
    from dij_inv_final(1,2) [OF invd] dij_inv_final(4) [OF invd ni] ni dd
    show "length dists = ?n \<and> PInf \<notin> set dists \<and> dists ! s = Fin 0 \<and> (\<forall>v<?n. (s, v) \<in> ?E\<^sup>*)"
      by simp
  qed
  have D: "short_edges nodes (zip edges1 edges2) k \<and> - 1074 \<le> k
            \<and> int ?n < 2 ^ 53 \<and> real ?n * 2 powi k < 2 ^ 1024
            \<longrightarrow> (dijkstra_algorithm nodes edges1 edges2 index = Inl InfiniteDistance
                    \<longleftrightarrow> (\<exists>v<?n. (s, v) \<notin> ?E\<^sup>*))
              \<and> ((\<forall>v<?n. (s, v) \<in> ?E\<^sup>*)
                    \<longrightarrow> (\<exists>dists prevs. dijkstra_algorithm nodes edges1 edges2 index
                                          = Inr (dists, prevs)))"
  proof (intro impI, elim conjE)
    assume sh: "short_edges nodes (zip edges1 edges2) k" and k: "- 1074 \<le> k"
      and n53: "int ?n < 2 ^ 53" and top: "real ?n * 2 powi k < 2 ^ 1024"
    from sh have short: "\<forall>(u, v) \<in> ?E.
                  \<exists>w \<le> 2 powi k. linalg_norm64 (vsub64 (nodes ! u) (nodes ! v)) = Finite w"
      by (simp add: short_edges_def)
    have "dij_closed ?n ?E k [] (fst ?r)"
      by (rule dij_closed_loop [OF short n53 k top dij_inv_init [OF sn] dij_closed_init [OF sn]])
    with r have cl: "dij_closed ?n ?E k [] d" by simp
    have iff: "PInf \<in> set d \<longleftrightarrow> (\<exists>v<?n. (s, v) \<notin> ?E\<^sup>*)"
      using dij_closed_final [OF invd cl] dij_inv_final(3) [OF invd] by blast
    show "(dijkstra_algorithm nodes edges1 edges2 index = Inl InfiniteDistance
                    \<longleftrightarrow> (\<exists>v<?n. (s, v) \<notin> ?E\<^sup>*))
              \<and> ((\<forall>v<?n. (s, v) \<in> ?E\<^sup>*)
                    \<longrightarrow> (\<exists>dists prevs. dijkstra_algorithm nodes edges1 edges2 index
                                          = Inr (dists, prevs)))"
      unfolding alg using iff by auto
  qed
  from A B C D show ?thesis by (intro conjI)
qed

lemmas dijkstra_eval =
  dijkstra_algorithm_def dijkstra_loop.simps np_index_def upt_rec find_min_def min_step_def
  pick_def np_delete1_def relax_def float_eval Let_def

lemma dijkstra_line3:
  "dijkstra_algorithm [(0, 0, 0), (1, 0, 0), (3, 0, 0)] [0, 1] [1, 2] 0
         = Inr ([Fin 0, Fin 1, Fin 3], [- 1, 0, 1])"
  by (simp add: dijkstra_eval)

theorem dijkstra_raises_iff_infinite_witness:
  "length [0::int, 1] = length [1::int, 2]
   \<and> np_index (length [(0::real, 0::real, 0::real), (1, 0, 0), (3, 0, 0)]) 0 = Some 0
   \<and> dijkstra_algorithm [(0, 0, 0), (1, 0, 0), (3, 0, 0)] [0, 1] [1, 2] 0
         = Inr ([Fin 0, Fin 1, Fin 3], [- 1, 0, 1])
   \<and> \<not> (\<exists>v<length [(0::real, 0::real, 0::real), (1, 0, 0), (3, 0, 0)].
           (0, v) \<notin> (dijkstra_edges (length [(0::real, 0::real, 0::real), (1, 0, 0), (3, 0, 0)])
                         (zip [0, 1] [1, 2]))\<^sup>*)"
proof -
  have h1: "length [0::int, 1] = length [1::int, 2]" by simp
  have h2: "np_index (length [(0::real, 0::real, 0::real), (1, 0, 0), (3, 0, 0)]) 0 = Some 0"
    by (simp add: np_index_def)
  from dijkstra_raises_iff_infinite [OF h1 h2, of 0] dijkstra_line3
  have "\<not> (\<exists>v<length [(0::real, 0::real, 0::real), (1, 0, 0), (3, 0, 0)].
           (0, v) \<notin> (dijkstra_edges (length [(0::real, 0::real, 0::real), (1, 0, 0), (3, 0, 0)])
                         (zip [0, 1] [1, 2]))\<^sup>*)"
    by blast
  with h1 h2 dijkstra_line3 show ?thesis by blast
qed

lemma dijkstra_unreachable_example:
  "dijkstra_algorithm [(0, 0, 0), (1, 0, 0), (3, 0, 0)] [0, 1] [1, 2] 1 = Inl InfiniteDistance"
  by (simp add: dijkstra_eval)

text \<open>
  The claim as stated has the error raised only when some point cannot be reached. On the
  two points \<open>(0, 0, 0)\<close> and \<open>(2^600, 0, 0)\<close> with the edge from the first to the second, the
  second point can be reached from the source 0; the square of \<open>2^600\<close> overflows, the length
  of the edge is \<open>inf\<close>, \<open>alt < dists[neib]\<close> is false and the function raises.
\<close>

lemma norm_overflow:
  "512 \<le> k \<Longrightarrow> k \<le> 1023 \<Longrightarrow> linalg_norm64 (vsub64 (0, 0, 0) (2 ^ k, 0, 0)) = PosInf"
  by (simp add: vsub64_def fsub_def fl_neg_power2 linalg_norm64_def fl_zero fl_square_overflow)

lemma dijkstra_overflow:
  assumes "linalg_norm64 (vsub64 (0, 0, 0) (t, 0, 0)) = PosInf"
  shows "dijkstra_algorithm [(0, 0, 0), (t, 0, 0)] [0] [1] 0 = Inl InfiniteDistance"
  using assms
  by (simp add: dijkstra_algorithm_def dijkstra_loop.simps np_index_def upt_rec find_min_def
        min_step_def pick_def np_delete1_def relax_def f64_def Let_def)

theorem dijkstra_overflow_counterexample:
  "dijkstra_algorithm [(0, 0, 0), (2 ^ 600, 0, 0)] [0] [1] 0 = Inl InfiniteDistance
   \<and> (0, 1) \<in> (dijkstra_edges (length [(0::real, 0::real, 0::real), (2 ^ 600, 0, 0)])
                   (zip [0] [1]))\<^sup>*
   \<and> (0, 0) \<in> (dijkstra_edges (length [(0::real, 0::real, 0::real), (2 ^ 600, 0, 0)])
                   (zip [0] [1]))\<^sup>*"
proof (intro conjI)
  have "linalg_norm64 (vsub64 (0, 0, 0) (2 ^ 600, 0, 0)) = PosInf"
    by (rule norm_overflow) simp_all
  then show "dijkstra_algorithm [(0, 0, 0), (2 ^ 600, 0, 0)] [0] [1] 0 = Inl InfiniteDistance"
    by (rule dijkstra_overflow)
  have "(0, 1) \<in> dijkstra_edges (length [(0::real, 0::real, 0::real), (2 ^ 600, 0, 0)]) (zip [0] [1])"
    by (simp add: dijkstra_edges_def)
  then show "(0, 1) \<in> (dijkstra_edges (length [(0::real, 0::real, 0::real), (2 ^ 600, 0, 0)])
                   (zip [0] [1]))\<^sup>*" by (rule r_into_rtrancl)
  show "(0, 0) \<in> (dijkstra_edges (length [(0::real, 0::real, 0::real), (2 ^ 600, 0, 0)])
                   (zip [0] [1]))\<^sup>*" by (rule rtrancl_refl)
qed
subsection \<open>Junction edges\<close>

lemmas junction_eval =
  create_junction_edges_def scan_junctions_def junction_step_def bif_prev_def
  junction_dists_step_def junction_feature_step_def getitem_def np_get_def vneg_def
  vsub_def dijkstra_eval


lemma junction_example:
  "create_junction_edges [(0, 0, 0), (1, 0, 0), (2, 0, 0), (3, 0, 0)] [- 1, 0, - 1, - 1]
     [0, 1, 2] [1, 2, 3]
   = Inr ([0, 2], [2, 0], [(2, 0, 0), (- 2, 0, 0)], [Fin 2, Fin 2], [3, 3],
          ([1, 0, 0, 0], [1, 0, 1, 0]))"
  by (simp add: junction_eval)

lemma junction_step_lengths:
  assumes "junction_step bif_id st ipoint = Inr st'" and "length (jedges1 st) = length (jedges2 st)"
  shows "length (jedges1 st') = length (jedges2 st')"
  using assms by (auto simp: junction_step_def split: if_splits option.splits)

lemma scan_junctions_lengths:
  assumes "scan_junctions bif_id = Inr st"
  shows "length (jedges1 st) = length (jedges2 st)"
  using assms unfolding scan_junctions_def Let_def
  by (rule for_loop_inv) (simp_all add: junction_step_lengths)

lemma junction_feature_lengths:
  assumes "for_loop (junction_feature_step points dists je1 je2) ([], []) is = Inr (rel, ds)"
  shows "length rel = length is \<and> length ds = length is"
proof -
  have "(\<lambda>k acc. length (fst acc) = k \<and> length (snd acc) = k) (length is) (rel, ds)"
    using assms
  proof (rule for_loop_inv_idx)
    show "length (fst ([]::point list, []::xreal list)) = 0
        \<and> length (snd ([]::point list, []::xreal list)) = 0" by simp
  next
    fix k t t'
    assume "length (fst t) = k \<and> length (snd t) = k"
      and "junction_feature_step points dists je1 je2 t (is ! k) = Inr t'"
    then show "length (fst t') = Suc k \<and> length (snd t') = Suc k"
      by (auto simp: junction_feature_step_def split: sum.splits option.splits)
  qed
  then show ?thesis by simp
qed

lemma vneg_vneg: "vneg (vneg p) = p"
  by (cases p) (simp add: vneg_def)

lemma mirrored_append:
  assumes "length a = m" and "length b = m" and "length r = m" and "length d = m"
    and "i < 2 * m"
  shows "\<exists>k<2 * m. (a @ b) ! k = (b @ a) ! i \<and> (b @ a) ! k = (a @ b) ! i
           \<and> (r @ map vneg r) ! k = vneg ((r @ map vneg r) ! i) \<and> (d @ d) ! k = (d @ d) ! i"
proof (cases "i < m")
  case True
  then have "i + m < 2 * m" by simp
  moreover have "(a @ b) ! (i + m) = (b @ a) ! i" "(b @ a) ! (i + m) = (a @ b) ! i"
    "(r @ map vneg r) ! (i + m) = vneg ((r @ map vneg r) ! i)" "(d @ d) ! (i + m) = (d @ d) ! i"
    using True assms(1-4) by (simp_all add: nth_append)
  ultimately show ?thesis by blast
next
  case False
  with assms(5) have "i - m < 2 * m" and lt: "i - m < m" by simp_all
  moreover have "(a @ b) ! (i - m) = (b @ a) ! i" "(b @ a) ! (i - m) = (a @ b) ! i"
    "(r @ map vneg r) ! (i - m) = vneg ((r @ map vneg r) ! i)" "(d @ d) ! (i - m) = (d @ d) ! i"
    using False lt assms(1-4) by (simp_all add: nth_append vneg_vneg)
  ultimately show ?thesis by blast
qed

text \<open>
  Claim C6. When \<open>create_junction_edges\<close> returns, its edges come in mirrored pairs: the
  five returned arrays have the same length, and for every returned edge \<open>(a, b)\<close> with
  relative position \<open>rel\<close> and distance \<open>dist\<close> the result also holds the edge \<open>(b, a)\<close> with
  relative position \<open>-rel\<close> and the same distance; every type tag is 3.
\<close>

theorem junction_edges_mirrored:
  assumes "create_junction_edges points bif_id edges1 edges2
             = Inr (je1, je2, jrel, jdist, types, masks)"
  shows "length je2 = length je1 \<and> length jrel = length je1 \<and> length jdist = length je1
       \<and> types = replicate (length je1) 3
       \<and> (\<forall>i<length je1. \<exists>k<length je1.
             je1 ! k = je2 ! i \<and> je2 ! k = je1 ! i
           \<and> jrel ! k = vneg (jrel ! i) \<and> jdist ! k = jdist ! i)"
proof -
  from assms obtain st dists r d where
    scan: "scan_junctions bif_id = Inr st"
    and feat: "for_loop (junction_feature_step points dists (jedges1 st) (jedges2 st)) ([], [])
                 [0 ..< length (jedges1 st)] = Inr (r, d)"
    and je1: "je1 = jedges1 st @ jedges2 st" and je2: "je2 = jedges2 st @ jedges1 st"
    and jrel: "jrel = r @ map vneg r" and jdist: "jdist = d @ d"
    and types: "types = replicate (length (jedges1 st @ jedges2 st)) 3"
    by (auto simp: create_junction_edges_def split: sum.splits prod.splits)
  define m where "m = length (jedges1 st)"
  from scan_junctions_lengths [OF scan] have l2: "length (jedges2 st) = m" by (simp add: m_def)
  from junction_feature_lengths [OF feat] have lr: "length r = m" and ld: "length d = m"
    by (simp_all add: m_def)
  have l1: "length (jedges1 st) = m" by (simp add: m_def)
  have len: "length je1 = 2 * m" using l1 l2 by (simp add: je1)
  have mirror: "\<forall>i<length je1. \<exists>k<length je1.
             je1 ! k = je2 ! i \<and> je2 ! k = je1 ! i
           \<and> jrel ! k = vneg (jrel ! i) \<and> jdist ! k = jdist ! i"
    unfolding len unfolding je1 je2 jrel jdist
    using mirrored_append [OF l1 l2 lr ld] by blast
  show ?thesis using mirror l1 l2 lr ld types
    by (simp add: je1 je2 jrel jdist)
qed

theorem junction_edges_mirrored_witness:
  "create_junction_edges [(0, 0, 0), (1, 0, 0), (2, 0, 0), (3, 0, 0)] [- 1, 0, - 1, - 1]
     [0, 1, 2] [1, 2, 3]
   = Inr ([0, 2], [2, 0], [(2, 0, 0), (- 2, 0, 0)], [Fin 2, Fin 2], [3, 3],
          ([1, 0, 0, 0], [1, 0, 1, 0]))
   \<and> [3, 3] = replicate (length [0::nat, 2]) (3::nat)
   \<and> (\<exists>k<length [0::nat, 2]. [0::nat, 2] ! k = [2::nat, 0] ! 0 \<and> [2::nat, 0] ! k = [0::nat, 2] ! 0
         \<and> [(2, 0, 0), (- 2, 0, 0)] ! k = vneg ([(2, 0, 0), (- 2, 0, 0)] ! 0)
         \<and> [Fin 2, Fin 2] ! k = [Fin 2, Fin 2] ! 0)"
proof -
  from junction_edges_mirrored [OF junction_example]
  have t: "[3, 3] = replicate (length [0::nat, 2]) (3::nat)"
    and m: "\<forall>i<length [0::nat, 2]. \<exists>k<length [0::nat, 2].
             [0::nat, 2] ! k = [2::nat, 0] ! i \<and> [2::nat, 0] ! k = [0::nat, 2] ! i
           \<and> [(2, 0, 0), (- 2, 0, 0)] ! k = vneg ([(2::real, 0::real, 0::real), (- 2, 0, 0)] ! i)
           \<and> [Fin 2, Fin 2] ! k = [Fin 2, Fin 2] ! i"
    by blast+
  from m have "0 < length [0::nat, 2] \<longrightarrow> (\<exists>k<length [0::nat, 2].
             [0::nat, 2] ! k = [2::nat, 0] ! 0 \<and> [2::nat, 0] ! k = [0::nat, 2] ! 0
           \<and> [(2, 0, 0), (- 2, 0, 0)] ! k = vneg ([(2::real, 0::real, 0::real), (- 2, 0, 0)] ! 0)
           \<and> [Fin 2, Fin 2] ! k = [Fin 2, Fin 2] ! 0)"
    by (rule spec)
  then have e: "\<exists>k<length [0::nat, 2].
             [0::nat, 2] ! k = [2::nat, 0] ! 0 \<and> [2::nat, 0] ! k = [0::nat, 2] ! 0
           \<and> [(2, 0, 0), (- 2, 0, 0)] ! k = vneg ([(2::real, 0::real, 0::real), (- 2, 0, 0)] ! 0)
           \<and> [Fin 2, Fin 2] ! k = [Fin 2, Fin 2] ! 0"
    by simp
  from junction_example t e show ?thesis by (intro conjI)
qed











subsection \<open>Field tensors\<close>

lemmas add_fields_eval =
  add_fields_def getitem_def fill_step_def set_column_def set_ndata_def subsample_def Let_def upt_rec

text \<open>
  Claim C9 asks for the last-axis slices in the order of the numerically sorted timestep
  keys. \<open>add_fields\<close> sorts the keys only to compute \<open>dt\<close>; it fills the tensor in the
  iteration order of the dictionary. On a dictionary whose keys 2 and 1 were inserted in
  that order, slice 0 holds the values of key 2 and slice 1 those of key 1, while \<open>dt\<close> is
  the gap \<open>2 - 1\<close> of the sorted keys.
\<close>

theorem add_fields_dict_order:
  "add_fields \<lparr>num_nodes = 1, ndata = []\<rparr> [(2, [5]), (1, [7])] ''pressure'' 1
     = Inr \<lparr>num_nodes = 1, ndata = [(''pressure'', [[[5, 7]]]), (''dt'', [[[1]]])]\<rparr>"
  by (simp add: add_fields_eval)

subsection \<open>Resampling\<close>

definition cap_pairs :: "nat \<Rightarrow> indices \<Rightarrow> (int \<times> int) list" where
  \<comment> \<open>the points the cap-removal loop deletes, each with its replacement, in loop order\<close>
  "cap_pairs remove_caps ind =
     concat (map (\<lambda>ip. map (\<lambda>inl. (inl + int ip, inl + int remove_caps)) (inlet ind)
                        @ map (\<lambda>outlet. (outlet - int ip, outlet - int remove_caps)) (outlets ind))
               [0 ..< remove_caps])"

definition endpoints :: "collapse_state \<Rightarrow> int set" where
  "endpoints st = (case st of (edges1, edges2, ds, rs) \<Rightarrow> set edges1 \<union> set edges2)"

definition deleted :: "collapse_state \<Rightarrow> int list" where
  "deleted st = (case st of (edges1, edges2, ds, rs) \<Rightarrow> ds)"

definition same_length :: "collapse_state \<Rightarrow> bool" where
  "same_length st = (case st of (edges1, edges2, ds, rs) \<Rightarrow> length edges1 = length edges2)"

lemma remove_caps_loop_pairs:
  "remove_caps_loop remove_caps ind st
     = foldl (\<lambda>st (d, r). collapse st d r) st (cap_pairs remove_caps ind)"
proof -
  have inner: "foldl (\<lambda>st (d, r). collapse st d r) s (map (\<lambda>x. (f x, g x)) xs)
      = foldl (\<lambda>st x. collapse st (f x) (g x)) s xs" for s f g and xs :: "int list"
    by (induction xs arbitrary: s) simp_all
  have outer: "foldl (\<lambda>st (d, r). collapse st d r) s
        (concat (map (\<lambda>ip. map (\<lambda>inl. (inl + int ip, inl + int remove_caps)) (inlet ind)
                        @ map (\<lambda>outlet. (outlet - int ip, outlet - int remove_caps)) (outlets ind)) ips))
      = foldl (\<lambda>st ip.
        foldl (\<lambda>st outlet. collapse st (outlet - int ip) (outlet - int remove_caps))
          (foldl (\<lambda>st inl. collapse st (inl + int ip) (inl + int remove_caps)) st (inlet ind))
          (outlets ind)) s ips" for s ips
    by (induction ips arbitrary: s) (simp_all add: inner)
  show ?thesis unfolding remove_caps_loop_def cap_pairs_def by (rule outer [symmetric])
qed

lemma collapse_deleted: "deleted (collapse st d r) = deleted st @ [d]"
  by (cases st) (simp add: collapse_def modify_edges_def deleted_def)

lemma collapse_same_length: "same_length (collapse st d r) = same_length st"
  by (cases st) (simp add: collapse_def modify_edges_def same_length_def)

lemma collapse_endpoints_subset: "endpoints (collapse st d r) \<subseteq> insert r (endpoints st - {d})"
  by (cases st) (auto simp: collapse_def modify_edges_def endpoints_def)

lemma collapse_endpoints_removed: "d \<noteq> r \<Longrightarrow> d \<notin> endpoints (collapse st d r)"
  by (cases st) (auto simp: collapse_def modify_edges_def endpoints_def)

lemma caps_fold_inv:
  assumes "fst ` set ps \<inter> snd ` set ps = {}"
  shows "deleted (foldl (\<lambda>st (d, r). collapse st d r) st ps) = deleted st @ map fst ps
       \<and> same_length (foldl (\<lambda>st (d, r). collapse st d r) st ps) = same_length st
       \<and> endpoints (foldl (\<lambda>st (d, r). collapse st d r) st ps)
            \<subseteq> (endpoints st \<union> snd ` set ps) - fst ` set ps \<union> (endpoints st - fst ` set ps)"
  using assms
proof (induction ps rule: rev_induct)
  case Nil
  show ?case by auto
next
  case (snoc p ps)
  obtain d r where p: "p = (d, r)" by (cases p)
  let ?mid = "foldl (\<lambda>st (d, r). collapse st d r) st ps"
  from snoc.prems have disj: "fst ` set ps \<inter> snd ` set ps = {}" by auto
  from snoc.IH [OF disj] have ihd: "deleted ?mid = deleted st @ map fst ps"
    and ihl: "same_length ?mid = same_length st"
    and ihe: "endpoints ?mid \<subseteq> (endpoints st \<union> snd ` set ps) - fst ` set ps \<union> (endpoints st - fst ` set ps)"
    by blast+
  from snoc.prems p have rd: "r \<notin> fst ` set ps" and dr: "d \<noteq> r" and ds: "d \<notin> snd ` set ps"
    by (auto simp: image_iff)
  have fold: "foldl (\<lambda>st (d, r). collapse st d r) st (ps @ [p]) = collapse ?mid d r"
    by (simp add: p)
  have "endpoints (collapse ?mid d r) \<subseteq> insert r (endpoints ?mid - {d})"
    by (rule collapse_endpoints_subset)
  with ihe rd dr have e: "endpoints (collapse ?mid d r)
       \<subseteq> (endpoints st \<union> snd ` set (ps @ [p])) - fst ` set (ps @ [p])
          \<union> (endpoints st - fst ` set (ps @ [p]))"
    by (auto simp: p)
  show ?case unfolding fold
    using ihd ihl e by (simp add: collapse_deleted collapse_same_length p)
qed

lemma gather_nth:
  "gather points idxs = Inr ps \<Longrightarrow>
     length ps = length idxs \<and> (\<forall>k<length idxs. np_get points (idxs ! k) = Inr (ps ! k))"
proof (induction idxs arbitrary: ps)
  case Nil
  then show ?case by simp
next
  case (Cons i idxs)
  from Cons.prems obtain p rest where p: "np_get points i = Inr p"
    and r: "gather points idxs = Inr rest" and ps: "ps = p # rest"
    by (auto split: sum.splits)
  from Cons.IH [OF r] have l: "length rest = length idxs"
    and n: "\<forall>k<length idxs. np_get points (idxs ! k) = Inr (rest ! k)" by simp_all
  show ?case
  proof (intro conjI allI impI)
    show "length ps = length (i # idxs)" using l ps by simp
  next
    fix k assume "k < length (i # idxs)"
    then show "np_get points ((i # idxs) ! k) = Inr (ps ! k)"
      using p n ps by (cases k) simp_all
  qed
qed

definition edge_length :: "point \<Rightarrow> point \<Rightarrow> xreal" where
  "edge_length p1 p2 =
     (let d = linalg_norm (vsub p1 p2) in if d < 1 / 10 ^ 13 then PInf else Fin d)"

lemma edge_lengths_nth:
  assumes "edge_lengths points edges1 edges2 = Inr diff"
  shows "length edges1 = length diff \<and> length edges2 = length diff
       \<and> (\<forall>k<length diff. \<exists>p1 p2. np_get points (edges1 ! k) = Inr p1
              \<and> np_get points (edges2 ! k) = Inr p2 \<and> diff ! k = edge_length p1 p2)"
proof -
  from assms obtain ps1 ps2 where g1: "gather points edges1 = Inr ps1"
    and g2: "gather points edges2 = Inr ps2" and l: "length ps1 = length ps2"
    and d: "diff = map (\<lambda>(p1, p2). edge_length p1 p2) (zip ps1 ps2)"
    by (auto simp: edge_lengths_def edge_length_def split: sum.splits if_splits)
  from gather_nth [OF g1] have l1: "length ps1 = length edges1"
    and n1: "\<forall>k<length edges1. np_get points (edges1 ! k) = Inr (ps1 ! k)" by simp_all
  from gather_nth [OF g2] have l2: "length ps2 = length edges2"
    and n2: "\<forall>k<length edges2. np_get points (edges2 ! k) = Inr (ps2 ! k)" by simp_all
  have ld: "length diff = length ps1" using l by (simp add: d)
  show ?thesis
  proof (intro conjI allI impI)
    show "length edges1 = length diff" using ld l1 by simp
    show "length edges2 = length diff" using ld l l2 by simp
  next
    fix k assume k: "k < length diff"
    with ld l have "diff ! k = edge_length (ps1 ! k) (ps2 ! k)" by (simp add: d)
    moreover from k ld l1 n1 have "np_get points (edges1 ! k) = Inr (ps1 ! k)" by simp
    moreover from k ld l l2 n2 have "np_get points (edges2 ! k) = Inr (ps2 ! k)" by simp
    ultimately show "\<exists>p1 p2. np_get points (edges1 ! k) = Inr p1
              \<and> np_get points (edges2 ! k) = Inr p2 \<and> diff ! k = edge_length p1 p2"
      by blast
  qed
qed





lemma first_where_first:
  assumes "first_where c n = Inr k"
  shows "k < n \<and> c k \<and> (\<forall>j<k. \<not> c j)"
proof -
  from assms have "List.find c [0 ..< n] = Some k"
    by (simp add: first_where_def split: option.splits)
  then obtain i where i: "i < length [0 ..< n]" and c: "c ([0 ..< n] ! i)"
    and k: "k = [0 ..< n] ! i" and f: "\<forall>j<i. \<not> c ([0 ..< n] ! j)"
    unfolding find_Some_iff by blast
  from i k have ki: "k = i" and kn: "k < n" by simp_all
  from f i have "\<forall>j<k. \<not> c j" unfolding ki by simp
  with c k kn show ?thesis by simp
qed

lemma decimate_step_pick:
  assumes "decimate_step points new_outlets (edges1, edges2, ds, rs) iter = Inr st'"
  shows "\<exists>diff mdiff mind.
           edge_lengths points edges1 edges2 = Inr diff \<and> np_min diff = Inr mdiff
         \<and> mind < length diff \<and> close_to (diff ! mind) mdiff
         \<and> (\<forall>j<mind. \<not> close_to (diff ! j) mdiff)
         \<and> st' = (if edges2 ! mind \<notin> set new_outlets
                  then collapse (edges1, edges2, ds, rs) (edges2 ! mind) (edges1 ! mind)
                  else collapse (edges1, edges2, ds, rs) (edges1 ! mind) (edges2 ! mind))"
proof -
  from assms obtain diff where d: "edge_lengths points edges1 edges2 = Inr diff"
    by (auto simp: decimate_step_def split: sum.splits)
  from assms d obtain mdiff where m: "np_min diff = Inr mdiff"
    by (auto simp: decimate_step_def split: sum.splits)
  from assms d m obtain mind where
    f: "first_where (\<lambda>k. close_to (diff ! k) mdiff) (length diff) = Inr mind"
    by (auto simp: decimate_step_def split: sum.splits)
  from assms d m f have st: "st' = (if edges2 ! mind \<notin> set new_outlets
                  then collapse (edges1, edges2, ds, rs) (edges2 ! mind) (edges1 ! mind)
                  else collapse (edges1, edges2, ds, rs) (edges1 ! mind) (edges2 ! mind))"
    by (auto simp: decimate_step_def split: if_splits)
  from first_where_first [OF f] d m st show ?thesis by blast
qed

lemma close_to_Fin: "close_to x m \<Longrightarrow> \<exists>a b. x = Fin a \<and> m = Fin b \<and> \<bar>a - b\<bar> < 1 / 10 ^ 12"
  by (cases x; cases m) simp_all



definition dec_inv :: "nat \<Rightarrow> int list \<Rightarrow> nat \<Rightarrow> collapse_state \<Rightarrow> bool" where
  "dec_inv n cdel k st \<longleftrightarrow>
     (\<exists>dd. deleted st = cdel @ dd \<and> length dd = k \<and> distinct dd
          \<and> set dd \<subseteq> {0 ..< int n} - set cdel
          \<and> endpoints st \<subseteq> {0 ..< int n} - (set cdel \<union> set dd)
          \<and> same_length st)"

lemma edge_length_pos_distinct:
  assumes "edge_length p1 p2 = Fin a"
  shows "p1 \<noteq> p2"
proof
  assume "p1 = p2"
  then have "linalg_norm (vsub p1 p2) = 0" using linalg_norm_zero_iff [of p1 p2] by simp
  with assms show False by (simp add: edge_length_def)
qed

lemma dec_inv_step:
  assumes inv: "dec_inv (length points) cdel k st"
    and step: "decimate_step points new_outlets st iter = Inr st'"
  shows "dec_inv (length points) cdel (Suc k) st'"
proof -
  obtain edges1 edges2 ds rs where st: "st = (edges1, edges2, ds, rs)" by (cases st)
  let ?n = "length points"
  from inv obtain dd where del: "deleted st = cdel @ dd" and len: "length dd = k"
    and dist: "distinct dd" and sub: "set dd \<subseteq> {0 ..< int ?n} - set cdel"
    and ends: "endpoints st \<subseteq> {0 ..< int ?n} - (set cdel \<union> set dd)"
    and same: "same_length st"
    unfolding dec_inv_def by blast
  from decimate_step_pick [OF step [unfolded st]] obtain diff m mind where
    d: "edge_lengths points edges1 edges2 = Inr diff"
    and mind: "mind < length diff" and cl: "close_to (diff ! mind) m"
    and st': "st' = (if edges2 ! mind \<notin> set new_outlets
                  then collapse st (edges2 ! mind) (edges1 ! mind)
                  else collapse st (edges1 ! mind) (edges2 ! mind))"
    unfolding st by blast
  from edge_lengths_nth [OF d] have l1: "length edges1 = length diff"
    and l2: "length edges2 = length diff"
    and each: "\<forall>k<length diff. \<exists>p1 p2. np_get points (edges1 ! k) = Inr p1
              \<and> np_get points (edges2 ! k) = Inr p2 \<and> diff ! k = edge_length p1 p2"
    by simp_all
  from each mind obtain p1 p2 where p1: "np_get points (edges1 ! mind) = Inr p1"
    and p2: "np_get points (edges2 ! mind) = Inr p2" and dm: "diff ! mind = edge_length p1 p2"
    by blast
  from close_to_Fin [OF cl] dm obtain a where "edge_length p1 p2 = Fin a" by auto
  then have "p1 \<noteq> p2" by (rule edge_length_pos_distinct)
  with p1 p2 have ne: "edges1 ! mind \<noteq> edges2 ! mind" by auto
  from mind l1 l2 have in1: "edges1 ! mind \<in> endpoints st" and in2: "edges2 ! mind \<in> endpoints st"
    by (simp_all add: st endpoints_def)
  define dl where "dl = (if edges2 ! mind \<notin> set new_outlets then edges2 ! mind else edges1 ! mind)"
  define rp where "rp = (if edges2 ! mind \<notin> set new_outlets then edges1 ! mind else edges2 ! mind)"
  have stc: "st' = collapse st dl rp" using st' by (simp add: dl_def rp_def)
  have dle: "dl \<in> endpoints st" and rpe: "rp \<in> endpoints st" and dr: "dl \<noteq> rp"
    using in1 in2 ne by (auto simp: dl_def rp_def)
  have del': "deleted st' = cdel @ (dd @ [dl])" by (simp add: stc collapse_deleted del)
  have len': "length (dd @ [dl]) = Suc k" using len by simp
  from dle ends have dlnew: "dl \<notin> set cdel \<union> set dd" and dlr: "dl \<in> {0 ..< int ?n}" by auto
  have dist': "distinct (dd @ [dl])" using dist dlnew by simp
  have sub': "set (dd @ [dl]) \<subseteq> {0 ..< int ?n} - set cdel" using sub dlnew dlr by auto
  have "endpoints st' \<subseteq> insert rp (endpoints st - {dl})"
    unfolding stc by (rule collapse_endpoints_subset)
  with rpe dr ends have ends': "endpoints st' \<subseteq> {0 ..< int ?n} - (set cdel \<union> set (dd @ [dl]))"
    by auto
  have same': "same_length st'" using same by (simp add: stc collapse_same_length)
  show ?thesis unfolding dec_inv_def
    using del' len' dist' sub' ends' same' by blast
qed

lemma dec_inv_loop:
  assumes "for_loop (decimate_step points new_outlets) st is = Inr st'"
    and "dec_inv (length points) cdel 0 st"
  shows "dec_inv (length points) cdel (length is) st'"
  using assms(1)
proof (rule for_loop_inv_idx [where P = "dec_inv (length points) cdel"])
  show "dec_inv (length points) cdel 0 st" by (rule assms(2))
next
  fix k t t'
  assume "dec_inv (length points) cdel k t"
    and "decimate_step points new_outlets t (is ! k) = Inr t'"
  then show "dec_inv (length points) cdel (Suc k) t'" by (rule dec_inv_step)
qed

lemma np_index_in_range: "0 \<le> i \<Longrightarrow> i < int n \<Longrightarrow> np_index n i = Some (nat i)"
  by (simp add: np_index_def)

lemma np_delete_length:
  assumes del: "np_delete xs idxs = Inr ys" and range: "set idxs \<subseteq> {0 ..< int (length xs)}"
  shows "length ys = length xs - card (set idxs)"
proof -
  let ?n = "length xs"
  have img: "np_index ?n ` set idxs = Some ` nat ` set idxs"
  proof -
    have "np_index ?n i = Some (nat i)" if "i \<in> set idxs" for i
      using that range by (intro np_index_in_range) auto
    then show ?thesis by (auto simp: image_iff)
  qed
  from del have ys: "ys = map snd (filter (\<lambda>(k, x). Some k \<notin> np_index ?n ` set idxs)
                           (zip [0 ..< ?n] xs))"
    by (simp add: np_delete_def split: if_splits)
  have "length ys = card {i. i < ?n \<and> i \<notin> nat ` set idxs}"
    unfolding ys img by (simp add: length_filter_conv_card image_iff) (rule arg_cong [where f = card], auto)
  also have "{i. i < ?n \<and> i \<notin> nat ` set idxs} = {..<?n} - nat ` set idxs" by auto
  also have "card \<dots> = ?n - card (nat ` set idxs)"
  proof -
    have "nat ` set idxs \<subseteq> {..<?n}"
    proof
      fix k assume "k \<in> nat ` set idxs"
      then obtain i where i: "i \<in> set idxs" and k: "k = nat i" by auto
      from i range have "0 \<le> i \<and> i < int ?n" by auto
      with k show "k \<in> {..<?n}" by auto
    qed
    then show ?thesis by (simp add: card_Diff_subset finite_subset [OF _ finite_lessThan])
  qed
  also have "card (nat ` set idxs) = card (set idxs)"
  proof (rule card_image)
    show "inj_on nat (set idxs)"
    proof (rule inj_onI)
      fix x y assume x: "x \<in> set idxs" and y: "y \<in> set idxs" and e: "nat x = nat y"
      from x range have "0 \<le> x" by auto
      moreover from y range have "0 \<le> y" by auto
      ultimately show "x = y" using e by simp
    qed
  qed
  finally show ?thesis .
qed

lemma npoints_to_keep_bounds:
  assumes n53: "int n < 2 ^ 53" and perc: "0 < perc" "perc \<le> 1"
  shows "\<exists>kept. py_int_float (fmul (fl (real n)) (Finite perc)) = Inr kept
           \<and> \<lfloor>real n * perc\<rfloor> \<le> kept \<and> kept \<le> \<lceil>real n * perc\<rceil> \<and> kept \<le> int n"
proof -
  define x where "x = real n * perc"
  have x0: "0 \<le> x" using perc by (simp add: x_def)
  have xn: "x \<le> real n" using perc by (simp add: x_def mult_left_le)
  have f0: "0 \<le> \<lfloor>x\<rfloor>" using x0 by simp
  have cn: "\<lceil>x\<rceil> \<le> int n" using xn by (simp add: ceiling_le_iff)
  have fc: "\<lfloor>x\<rfloor> \<le> \<lceil>x\<rceil>" by (rule floor_le_ceiling)
  have "\<bar>int n\<bar> < 2 ^ 53" using n53 by simp
  from fl_of_int [OF this] have fn: "fl (real n) = Finite (real n)" by simp
  have ea: "round64 (of_int \<lfloor>x\<rfloor>) = of_int \<lfloor>x\<rfloor>"
    by (rule round64_of_int) (use f0 fc cn n53 in linarith)
  have eb: "round64 (of_int \<lceil>x\<rceil>) = of_int \<lceil>x\<rceil>"
    by (rule round64_of_int) (use f0 fc cn n53 in linarith)
  have lo: "- (2 ^ 1024) < real_of_int \<lfloor>x\<rfloor>"
  proof -
    have "- (2 ^ 1024) < (0::real)" by simp
    also have "0 \<le> real_of_int \<lfloor>x\<rfloor>" using f0 by simp
    finally show ?thesis .
  qed
  have hi: "real_of_int \<lceil>x\<rceil> < 2 ^ 1024"
  proof -
    have "real_of_int \<lceil>x\<rceil> \<le> real_of_int (int n)" using cn by (simp only: of_int_le_iff)
    also have "\<dots> < real_of_int (2 ^ 53)" using n53 by (simp only: of_int_less_iff)
    also have "\<dots> = 2 ^ 53" by simp
    also have "(2::real) ^ 53 < 2 ^ 1024" by (rule power_strict_increasing) simp_all
    finally show ?thesis .
  qed
  have "of_int \<lfloor>x\<rfloor> \<le> x" and "x \<le> of_int \<lceil>x\<rceil>" by simp_all
  from fl_between [OF ea eb this lo hi] obtain y where
    y: "fl x = Finite y" and ly: "of_int \<lfloor>x\<rfloor> \<le> y" and yu: "y \<le> of_int \<lceil>x\<rceil>" by blast
  from ly f0 have y0: "0 \<le> y" by linarith
  have k: "py_int_float (fmul (fl (real n)) (Finite perc)) = Inr \<lfloor>y\<rfloor>"
    using y y0 by (simp add: fn py_int_float_def py_int_def x_def)
  have "\<lfloor>x\<rfloor> \<le> \<lfloor>y\<rfloor>" using ly by (simp add: le_floor_iff)
  moreover have "\<lfloor>y\<rfloor> \<le> \<lceil>x\<rceil>" using yu by (simp add: floor_le_iff)
  ultimately show ?thesis using k cn unfolding x_def by (intro exI [of _ "\<lfloor>y\<rfloor>"]) linarith
qed

text \<open>
  Claim C1, as the code has it. Let \<open>N\<close> be the number of points, the edges run between
  points \<open>0 .. N - 1\<close>, the keep fraction lie in \<open>(0, 1]\<close>, the cap points and their
  replacements lie in \<open>0 .. N - 1\<close> and no replacement be itself a cap point. When
  \<open>resample_points\<close> returns, the number of points it returns is \<open>int(N * keep_fraction)\<close>
  less the number of cap points, and \<open>sampled_indices\<close> has that length too.
  \<open>int(N * keep_fraction)\<close> is the float64 product cut to an integer: it is
  \<open>floor(N * keep_fraction)\<close>, or the next integer when the product rounds up to it.
\<close>

theorem resample_points_count:
  assumes res: "resample_points points edges1 edges2 ind perc remove_caps
                  = (ind', Inr (sampled_indices, points', edges1', edges2', ind''))"
    and perc: "0 < perc" "perc \<le> 1"
    and n53: "int (length points) < 2 ^ 53"
    and same: "length edges1 = length edges2"
    and ends: "set edges1 \<union> set edges2 \<subseteq> {0 ..< int (length points)}"
    and caps: "fst ` set (cap_pairs remove_caps ind) \<union> snd ` set (cap_pairs remove_caps ind)
                 \<subseteq> {0 ..< int (length points)}"
    and disj: "fst ` set (cap_pairs remove_caps ind) \<inter> snd ` set (cap_pairs remove_caps ind) = {}"
  shows "\<exists>kept. py_int_float (fmul (fl (real (length points))) (Finite perc)) = Inr kept
           \<and> int (length points') = kept - int (card (fst ` set (cap_pairs remove_caps ind)))
           \<and> length sampled_indices = length points'
           \<and> \<lfloor>real (length points) * perc\<rfloor> \<le> kept \<and> kept \<le> \<lceil>real (length points) * perc\<rceil>"
proof -
  let ?n = "length points"
  let ?ps = "cap_pairs remove_caps ind"
  let ?st0 = "remove_caps_loop remove_caps ind (edges1, edges2, [], [])"
  let ?outs = "map (\<lambda>outlet. outlet - int remove_caps) (outlets ind)"
  from npoints_to_keep_bounds [OF n53 perc] obtain kept where
    kept: "py_int_float (fmul (fl (real ?n)) (Finite perc)) = Inr kept"
    and kl: "\<lfloor>real ?n * perc\<rfloor> \<le> kept" and ku: "kept \<le> \<lceil>real ?n * perc\<rceil>"
    and kn: "kept \<le> int ?n" by blast
  let ?K = "nat (int ?n - kept)"
  from res obtain e1 e2 ds rs where
    loop: "for_loop (decimate_step points ?outs) ?st0 [0 ..< ?K] = Inr (e1, e2, ds, rs)"
    and rp: "remove_points ds rs e1 e2 ?n = Inr (sampled_indices, edges1', edges2')"
    and dp: "np_delete points ds = Inr points'"
    by (auto simp: resample_points_def Let_def kept split: sum.splits prod.splits)
  from caps_fold_inv [OF disj, of "(edges1, edges2, [], [])"]
  have d0: "deleted ?st0 = map fst ?ps" and s0: "same_length ?st0"
    and e0: "endpoints ?st0 \<subseteq> (set edges1 \<union> set edges2 \<union> snd ` set ?ps) - fst ` set ?ps
                \<union> (set edges1 \<union> set edges2 - fst ` set ?ps)"
    using same by (simp_all add: remove_caps_loop_pairs deleted_def same_length_def endpoints_def)
  have inv0: "dec_inv ?n (map fst ?ps) 0 ?st0"
    unfolding dec_inv_def
  proof (rule exI [of _ "[]"], intro conjI)
    show "deleted ?st0 = map fst ?ps @ []" using d0 by simp
    have "endpoints ?st0 \<subseteq> {0 ..< int ?n} - fst ` set ?ps"
      using e0 ends caps by blast
    then show "endpoints ?st0 \<subseteq> {0 ..< int ?n} - (set (map fst ?ps) \<union> set [])"
      by simp
    show "same_length ?st0" by (rule s0)
  qed simp_all
  from dec_inv_loop [OF loop inv0] obtain dd where
    ds: "ds = map fst ?ps @ dd" and ldd: "length dd = ?K" and dist: "distinct dd"
    and sub: "set dd \<subseteq> {0 ..< int ?n} - set (map fst ?ps)"
    unfolding dec_inv_def by (auto simp: deleted_def)
  have "fst ` set ?ps \<union> set dd \<subseteq> {0 ..< int ?n}" using sub caps by blast
  then have range: "set ds \<subseteq> {0 ..< int ?n}" by (simp add: ds)
  have "card (set ds) = card (fst ` set ?ps \<union> set dd)" by (simp add: ds)
  also have "\<dots> = card (fst ` set ?ps) + card (set dd)"
    using sub by (intro card_Un_disjoint) auto
  also have "card (set dd) = ?K" using dist ldd by (simp add: distinct_card)
  finally have cds: "card (set ds) = card (fst ` set ?ps) + ?K" .
  have "card (set ds) \<le> card {0 ..< int ?n}" using range by (intro card_mono) simp_all
  then have le: "card (fst ` set ?ps) + ?K \<le> ?n" using cds by simp
  from np_delete_length [OF dp range] cds
  have lp: "length points' = ?n - (card (fst ` set ?ps) + ?K)" by simp
  have K: "int ?K = int ?n - kept" using kn by simp
  from lp le K have count: "int (length points')
      = kept - int (card (fst ` set ?ps))" by linarith
  from rp obtain e1k e2k where si: "np_delete [0 ..< ?n] ds = Inr sampled_indices"
    by (auto simp: remove_points_def Let_def split: prod.splits if_splits sum.splits)
  from np_delete_length [OF si] range have "length sampled_indices = ?n - card (set ds)" by simp
  with lp cds have "length sampled_indices = length points'" by simp
  with count kept kl ku show ?thesis by blast
qed

lemma py_int_float_product:
  assumes a: "fl a = Finite a" and lo: "real_of_int m \<le> a * p" and up: "a * p \<le> b"
    and b: "b < real_of_int m + 1" and eb: "round64 b = b" and m0: "0 \<le> m" and m53: "m < 2 ^ 53"
  shows "py_int_float (fmul (fl a) (Finite p)) = Inr m"
proof -
  have em: "round64 (of_int m) = of_int m" by (rule round64_of_int) (use m0 m53 in simp)
  have l: "- (2 ^ 1024) < real_of_int m"
  proof -
    have "- (2 ^ 1024) < (0::real)" by simp
    also have "0 \<le> real_of_int m" using m0 by simp
    finally show ?thesis .
  qed
  have h: "b < 2 ^ 1024"
  proof -
    have "real_of_int m < real_of_int (2 ^ 53)" using m53 by (simp only: of_int_less_iff)
    then have "real_of_int m + 1 \<le> 2 ^ 53" using m53 by simp
    also have "(2::real) ^ 53 < 2 ^ 1024" by (rule power_strict_increasing) simp_all
    finally show ?thesis using b by linarith
  qed
  from fl_between [OF em eb lo up l h] obtain y where
    y: "fl (a * p) = Finite y" and ly: "of_int m \<le> y" and yu: "y \<le> b" by blast
  from ly m0 have y0: "0 \<le> y" by linarith
  from ly yu b have "\<lfloor>y\<rfloor> = m" by linarith
  with y y0 show ?thesis by (simp add: a py_int_float_def py_int_def)
qed

lemma fl_eleven: "fl 11 = Finite 11" and fl_three: "fl 3 = Finite 3"
  by (simp_all add: fl_numeral)

lemma keep_11_at_008: "py_int_float (fmul (fl 11) (Finite (2 / 25))) = Inr 0"
  using round64_of_int_div [of 15 4]
  by (intro py_int_float_product [OF fl_eleven, where b = "15 / 16"]) simp_all

lemma keep_11_at_016: "py_int_float (fmul (fl 11) (Finite (4 / 25))) = Inr 1"
  using round64_of_int_div [of 15 3]
  by (intro py_int_float_product [OF fl_eleven, where b = "15 / 8"]) simp_all

lemma keep_11_at_032: "py_int_float (fmul (fl 11) (Finite (8 / 25))) = Inr 3"
  using round64_of_int_div [of 15 2]
  by (intro py_int_float_product [OF fl_eleven, where b = "15 / 4"]) simp_all

lemma keep_11_at_064: "py_int_float (fmul (fl 11) (Finite (16 / 25))) = Inr 7"
  using round64_of_int_div [of 15 1]
  by (intro py_int_float_product [OF fl_eleven, where b = "15 / 2"]) simp_all

lemma keep_11_at_075: "py_int_float (fmul (fl 11) (Finite (3 / 4))) = Inr 8"
  using round64_of_int_div [of 17 1]
  by (intro py_int_float_product [OF fl_eleven, where b = "17 / 2"]) simp_all

lemma keep_3_at_050: "py_int_float (fmul (fl 3) (Finite (1 / 2))) = Inr 1"
  using round64_of_int_div [of 3 1]
  by (intro py_int_float_product [OF fl_three, where b = "3 / 2"]) simp_all

lemmas resample_eval =
  resample_points_def remove_caps_loop_def collapse_def modify_edges_def decimate_step_def
  edge_lengths_def np_min_def xmin_def first_where_def np_delete_def remove_points_def
  index_in_def np_get_def np_index_def vsub_def linalg_norm_x_axis Let_def upt_rec
  keep_11_at_008 keep_11_at_016 keep_11_at_032 keep_11_at_064 keep_11_at_075 keep_3_at_050

lemma resample_line11_retry4:
  "resample_points
     [(0, 0, 0), (1, 0, 0), (2, 0, 0), (3, 0, 0), (4, 0, 0), (5, 0, 0), (6, 0, 0), (7, 0, 0),
      (8, 0, 0), (9, 0, 0), (10, 0, 0)]
     [0, 1, 2, 3, 4, 5, 6, 7, 8, 9] [1, 2, 3, 4, 5, 6, 7, 8, 9, 10]
     \<lparr>inlet = [0], outlets = [10]\<rparr> (64 / 100) 3
  = (\<lparr>inlet = [0], outlets = [7]\<rparr>,
     Inr ([7], [(7, 0, 0)], [], [], \<lparr>inlet = [0], outlets = [7]\<rparr>))"
  by (simp add: resample_eval)

lemma cap_pairs_line11:
  "cap_pairs 3 \<lparr>inlet = [0], outlets = [10]\<rparr> = [(0, 3), (10, 7), (1, 3), (9, 7), (2, 3), (8, 7)]"
  by (simp add: cap_pairs_def upt_rec)

lemma resample_line11_keep075:
  "resample_points
     [(0, 0, 0), (1, 0, 0), (2, 0, 0), (3, 0, 0), (4, 0, 0), (5, 0, 0), (6, 0, 0), (7, 0, 0),
      (8, 0, 0), (9, 0, 0), (10, 0, 0)]
     [0, 1, 2, 3, 4, 5, 6, 7, 8, 9] [1, 2, 3, 4, 5, 6, 7, 8, 9, 10]
     \<lparr>inlet = [0], outlets = [10]\<rparr> (3 / 4) 3
  = (\<lparr>inlet = [0], outlets = [7]\<rparr>,
     Inr ([3, 7], [(3, 0, 0), (7, 0, 0)], [0], [1], \<lparr>inlet = [0], outlets = [7]\<rparr>))"
  by (simp add: resample_eval)

theorem resample_points_count_witness:
  "resample_points
     [(0, 0, 0), (1, 0, 0), (2, 0, 0), (3, 0, 0), (4, 0, 0), (5, 0, 0), (6, 0, 0), (7, 0, 0),
      (8, 0, 0), (9, 0, 0), (10, 0, 0)]
     [0, 1, 2, 3, 4, 5, 6, 7, 8, 9] [1, 2, 3, 4, 5, 6, 7, 8, 9, 10]
     \<lparr>inlet = [0], outlets = [10]\<rparr> (3 / 4) 3
   = (\<lparr>inlet = [0], outlets = [7]\<rparr>,
      Inr ([3, 7], [(3, 0, 0), (7, 0, 0)], [0], [1], \<lparr>inlet = [0], outlets = [7]\<rparr>))
   \<and> cap_pairs 3 \<lparr>inlet = [0], outlets = [10]\<rparr>
       = [(0, 3), (10, 7), (1, 3), (9, 7), (2, 3), (8, 7)]
   \<and> py_int_float (fmul (fl 11) (Finite (3 / 4))) = Inr 8
   \<and> int (length [(3::real, 0::real, 0::real), (7, 0, 0)])
       = 8 - int (card (fst ` set (cap_pairs 3 \<lparr>inlet = [0], outlets = [10]\<rparr>)))
   \<and> length [3::nat, 7] = length [(3::real, 0::real, 0::real), (7, 0, 0)]"
proof -
  let ?P = "[(0::real, 0::real, 0::real), (1, 0, 0), (2, 0, 0), (3, 0, 0), (4, 0, 0),
             (5, 0, 0), (6, 0, 0), (7, 0, 0), (8, 0, 0), (9, 0, 0), (10, 0, 0)]"
  let ?ind = "\<lparr>inlet = [0], outlets = [10]\<rparr>"
  have h1: "(0::real) < 3 / 4" and h2: "(3 / 4 :: real) \<le> 1" by simp_all
  have h0: "int (length ?P) < 2 ^ 53" by simp
  have h3: "length [0, 1, 2, 3, 4, 5, 6, 7, 8, 9 :: int] = length [1, 2, 3, 4, 5, 6, 7, 8, 9, 10 :: int]"
    by simp
  have h4: "set [0, 1, 2, 3, 4, 5, 6, 7, 8, 9 :: int] \<union> set [1, 2, 3, 4, 5, 6, 7, 8, 9, 10 :: int]
              \<subseteq> {0 ..< int (length ?P)}" by simp
  have h5: "fst ` set (cap_pairs 3 ?ind) \<union> snd ` set (cap_pairs 3 ?ind) \<subseteq> {0 ..< int (length ?P)}"
    by (simp add: cap_pairs_line11)
  have h6: "fst ` set (cap_pairs 3 ?ind) \<inter> snd ` set (cap_pairs 3 ?ind) = {}"
    by (simp add: cap_pairs_line11)
  have len: "real (length ?P) = 11" by simp
  from resample_points_count [OF resample_line11_keep075 h1 h2 h0 h3 h4 h5 h6]
  have "int (length [(3::real, 0::real, 0::real), (7, 0, 0)])
       = 8 - int (card (fst ` set (cap_pairs 3 ?ind)))"
    unfolding len keep_11_at_075 by simp
  with resample_line11_keep075 cap_pairs_line11 keep_11_at_075 show ?thesis by simp
qed

text \<open>
  The claim as stated gives \<open>N - floor(N * (1 - keep_fraction))\<close>. On three points in a line
  with keep fraction 1/2 and no cap removal that is 2, and the code returns 1 point.
\<close>

lemma resample_line3:
  "resample_points [(0, 0, 0), (1, 0, 0), (2, 0, 0)] [0, 1] [1, 2]
     \<lparr>inlet = [0], outlets = [2]\<rparr> (1 / 2) 0
  = (\<lparr>inlet = [0], outlets = [2]\<rparr>,
     Inr ([2], [(2, 0, 0)], [], [], \<lparr>inlet = [0], outlets = [2]\<rparr>))"
  by (simp add: resample_eval)

theorem resample_points_count_counterexample:
  "resample_points [(0, 0, 0), (1, 0, 0), (2, 0, 0)] [0, 1] [1, 2]
     \<lparr>inlet = [0], outlets = [2]\<rparr> (1 / 2) 0
   = (\<lparr>inlet = [0], outlets = [2]\<rparr>,
      Inr ([2], [(2, 0, 0)], [], [], \<lparr>inlet = [0], outlets = [2]\<rparr>))
   \<and> int (length [(2::real, 0::real, 0::real)])
        \<noteq> int (length [(0::real, 0::real, 0::real), (1, 0, 0), (2, 0, 0)])
          - \<lfloor>real (length [(0::real, 0::real, 0::real), (1, 0, 0), (2, 0, 0)]) * (1 - 1 / 2)\<rfloor>"
proof -
  have "\<lfloor>3 * (1 - 1 / 2 :: real)\<rfloor> = 1" by (simp add: floor_eq_iff)
  then show ?thesis using resample_line3 by simp
qed

text \<open>
  The float product can round up to an integer that the exact product does not reach. The
  float nearest to \<open>1/3\<close> is \<open>6004799503160661 / 2^54\<close>; three times that is \<open>1 - 2^-54\<close>, half
  way between two floats, and rounds to \<open>1.0\<close>: of three points one is kept, where the floor
  of the exact product is 0.
\<close>

lemma third_exponent: "float_exponent (18014398509481983 / 18014398509481984) = - 1"
  using float_exponent_eq [of "- 1" "18014398509481983 / 18014398509481984"]
  by (simp add: power_int_minus)

lemma third_round: "round64 (18014398509481983 / 18014398509481984) = 1"
  by (simp add: round64_def ulp_def third_exponent power_int_minus round_half_even_def)

lemma keep_3_at_third:
  "py_int_float (fmul (fl 3) (Finite (6004799503160661 / 2 ^ 54))) = Inr 1"
proof -
  have "fl (18014398509481983 / 18014398509481984) = Finite 1"
    by (simp add: fl_def third_round)
  then show ?thesis by (simp add: fl_three py_int_float_def py_int_def)
qed

lemma resample_line3_third:
  "resample_points [(0, 0, 0), (1, 0, 0), (2, 0, 0)] [0, 1] [1, 2]
     \<lparr>inlet = [0], outlets = [2]\<rparr> (6004799503160661 / 2 ^ 54) 0
   = (\<lparr>inlet = [0], outlets = [2]\<rparr>,
      Inr ([2], [(2, 0, 0)], [], [], \<lparr>inlet = [0], outlets = [2]\<rparr>))
   \<and> \<lfloor>3 * (6004799503160661 / 2 ^ 54 :: real)\<rfloor> = 0"
  using keep_3_at_third by (simp add: resample_eval)

subsection \<open>One decimation step on an example\<close>




text \<open>
  The edge that is collapsed need not be the shortest one: the first edge within \<open>1e-12\<close> of
  the least length wins.
\<close>

lemma decimate_step_tolerance_example:
  "edge_lengths [(0, 0, 0), (1 + 1 / (2 * 10 ^ 12), 0, 0), (2 + 1 / (2 * 10 ^ 12), 0, 0)]
     [0, 1] [1, 2] = Inr [Fin (1 + 1 / (2 * 10 ^ 12)), Fin 1]
   \<and> decimate_step [(0, 0, 0), (1 + 1 / (2 * 10 ^ 12), 0, 0), (2 + 1 / (2 * 10 ^ 12), 0, 0)]
       [2] ([0, 1], [1, 2], [], []) 0
       = Inr ([0, 0], [0, 2], [1], [0])"
  by (simp add: resample_eval)

subsection \<open>The retry loop on an eleven-point line\<close>

lemma resample_line11_first:
  "resample_points
     [(0, 0, 0), (1, 0, 0), (2, 0, 0), (3, 0, 0), (4, 0, 0), (5, 0, 0), (6, 0, 0), (7, 0, 0),
      (8, 0, 0), (9, 0, 0), (10, 0, 0)]
     [0, 1, 2, 3, 4, 5, 6, 7, 8, 9] [1, 2, 3, 4, 5, 6, 7, 8, 9, 10]
     \<lparr>inlet = [0], outlets = [10]\<rparr> (8 / 100) 3
  = (\<lparr>inlet = [0], outlets = [7]\<rparr>, Inl IndexError)"
  by (simp add: resample_eval)

text \<open>
  Claim C8 asks that a retry starts from the input as it was before the failed attempt. The
  first attempt on the eleven-point line (keep fraction 0.08, three cap points) ends in an
  exception after it has moved the outlet from 10 to 7 in the caller's dictionary, and the
  second attempt runs with the outlet 7 and keep fraction 0.16.
\<close>

theorem retry_keeps_shifted_outlets:
  "resample_points
     [(0, 0, 0), (1, 0, 0), (2, 0, 0), (3, 0, 0), (4, 0, 0), (5, 0, 0), (6, 0, 0), (7, 0, 0),
      (8, 0, 0), (9, 0, 0), (10, 0, 0)]
     [0, 1, 2, 3, 4, 5, 6, 7, 8, 9] [1, 2, 3, 4, 5, 6, 7, 8, 9, 10]
     \<lparr>inlet = [0], outlets = [10]\<rparr> (8 / 100) 3
   = (\<lparr>inlet = [0], outlets = [7]\<rparr>, Inl IndexError)
   \<and> resample_retry
       [(0, 0, 0), (1, 0, 0), (2, 0, 0), (3, 0, 0), (4, 0, 0), (5, 0, 0), (6, 0, 0), (7, 0, 0),
        (8, 0, 0), (9, 0, 0), (10, 0, 0)]
       [0, 1, 2, 3, 4, 5, 6, 7, 8, 9] [1, 2, 3, 4, 5, 6, 7, 8, 9, 10]
       \<lparr>inlet = [0], outlets = [10]\<rparr> (8 / 100)
     = resample_retry
       [(0, 0, 0), (1, 0, 0), (2, 0, 0), (3, 0, 0), (4, 0, 0), (5, 0, 0), (6, 0, 0), (7, 0, 0),
        (8, 0, 0), (9, 0, 0), (10, 0, 0)]
       [0, 1, 2, 3, 4, 5, 6, 7, 8, 9] [1, 2, 3, 4, 5, 6, 7, 8, 9, 10]
       \<lparr>inlet = [0], outlets = [7]\<rparr> (16 / 100)"
proof -
  let ?P = "[(0::real, 0::real, 0::real), (1, 0, 0), (2, 0, 0), (3, 0, 0), (4, 0, 0),
             (5, 0, 0), (6, 0, 0), (7, 0, 0), (8, 0, 0), (9, 0, 0), (10, 0, 0)]"
  let ?E1 = "[0, 1, 2, 3, 4, 5, 6, 7, 8, 9 :: int]"
  let ?E2 = "[1, 2, 3, 4, 5, 6, 7, 8, 9, 10 :: int]"
  have m: "min (8 / 100 * 2) (1::real) = 16 / 100" by simp
  have "resample_retry ?P ?E1 ?E2 \<lparr>inlet = [0], outlets = [10]\<rparr> (8 / 100)
      = (case resample_points ?P ?E1 ?E2 \<lparr>inlet = [0], outlets = [10]\<rparr> (8 / 100) 3 of
           (ind', Inr r) \<Rightarrow> Some r
         | (ind', Inl e) \<Rightarrow> resample_retry ?P ?E1 ?E2 ind' (min (8 / 100 * 2) 1))"
    by (rule resample_retry.simps)
  also have "\<dots> = resample_retry ?P ?E1 ?E2 \<lparr>inlet = [0], outlets = [7]\<rparr> (min (8 / 100 * 2) 1)"
    by (simp only: resample_line11_first prod.case sum.case)
  finally have "resample_retry ?P ?E1 ?E2 \<lparr>inlet = [0], outlets = [10]\<rparr> (8 / 100)
      = resample_retry ?P ?E1 ?E2 \<lparr>inlet = [0], outlets = [7]\<rparr> (16 / 100)"
    by (simp only: m)
  with resample_line11_first show ?thesis by (rule conjI)
qed

text \<open>
  The following attempts move the outlet further, to 4, 1 and -2, and fail as well; from the
  unmodified input the attempt with keep fraction 0.64 succeeds (lemma
  \<open>resample_line11_retry4\<close>).
\<close>

lemma resample_line11_second:
  "resample_points
     [(0, 0, 0), (1, 0, 0), (2, 0, 0), (3, 0, 0), (4, 0, 0), (5, 0, 0), (6, 0, 0), (7, 0, 0),
      (8, 0, 0), (9, 0, 0), (10, 0, 0)]
     [0, 1, 2, 3, 4, 5, 6, 7, 8, 9] [1, 2, 3, 4, 5, 6, 7, 8, 9, 10]
     \<lparr>inlet = [0], outlets = [7]\<rparr> (16 / 100) 3
  = (\<lparr>inlet = [0], outlets = [4]\<rparr>, Inl IndexError)"
  by (simp add: resample_eval)

lemma resample_line11_third:
  "resample_points
     [(0, 0, 0), (1, 0, 0), (2, 0, 0), (3, 0, 0), (4, 0, 0), (5, 0, 0), (6, 0, 0), (7, 0, 0),
      (8, 0, 0), (9, 0, 0), (10, 0, 0)]
     [0, 1, 2, 3, 4, 5, 6, 7, 8, 9] [1, 2, 3, 4, 5, 6, 7, 8, 9, 10]
     \<lparr>inlet = [0], outlets = [4]\<rparr> (32 / 100) 3
  = (\<lparr>inlet = [0], outlets = [1]\<rparr>, Inl IndexError)"
  by (simp add: resample_eval)

lemma resample_line11_fourth:
  "resample_points
     [(0, 0, 0), (1, 0, 0), (2, 0, 0), (3, 0, 0), (4, 0, 0), (5, 0, 0), (6, 0, 0), (7, 0, 0),
      (8, 0, 0), (9, 0, 0), (10, 0, 0)]
     [0, 1, 2, 3, 4, 5, 6, 7, 8, 9] [1, 2, 3, 4, 5, 6, 7, 8, 9, 10]
     \<lparr>inlet = [0], outlets = [1]\<rparr> (64 / 100) 3
  = (\<lparr>inlet = [0], outlets = [- 2]\<rparr>, Inl IndexError)"
  by (simp add: resample_eval)

subsection \<open>Resampling keeps edges between points with the same coordinates\<close>

text \<open>
  \<open>remove_points\<close> deletes the edges whose two ends are the same index. An edge between two
  different indices with the same coordinates has length 0: the decimation loop sets it
  aside (\<open>diff < 1e-13\<close>) and the edge is returned. \<open>generate_edge_features\<close> then divides by
  the distance \<open>0.0\<close>.
\<close>

lemma keep_3_at_1: "py_int_float (fmul (fl 3) (Finite 1)) = Inr 3"
  using round64_of_int_div [of 7 1]
  by (intro py_int_float_product [OF fl_three, where b = "7 / 2"]) simp_all

lemma resample_keeps_coincident_points:
  "resample_points [(0, 0, 0), (0, 0, 0), (1, 0, 0)] [0, 1] [1, 2]
     \<lparr>inlet = [0], outlets = [2]\<rparr> 1 0
   = (\<lparr>inlet = [0], outlets = [2]\<rparr>,
      Inr ([0, 1, 2], [(0, 0, 0), (0, 0, 0), (1, 0, 0)], [0, 1], [1, 2],
           \<lparr>inlet = [0], outlets = [2]\<rparr>))
   \<and> generate_edge_features [(0, 0, 0), (0, 0, 0), (1, 0, 0)] [0, 1] [1, 2]
       = Inr ([(NaN, NaN, NaN), (Finite 1, Finite 0, Finite 0)], [Finite 0, Finite 1])"
proof
  show "resample_points [(0, 0, 0), (0, 0, 0), (1, 0, 0)] [0, 1] [1, 2]
     \<lparr>inlet = [0], outlets = [2]\<rparr> 1 0
   = (\<lparr>inlet = [0], outlets = [2]\<rparr>,
      Inr ([0, 1, 2], [(0, 0, 0), (0, 0, 0), (1, 0, 0)], [0, 1], [1, 2],
           \<lparr>inlet = [0], outlets = [2]\<rparr>))"
    using keep_3_at_1 by (simp add: resample_eval)
  show "generate_edge_features [(0, 0, 0), (0, 0, 0), (1, 0, 0)] [0, 1] [1, 2]
       = Inr ([(NaN, NaN, NaN), (Finite 1, Finite 0, Finite 0)], [Finite 0, Finite 1])"
    by (simp add: generate_edge_features_def getitem_def np_get_def np_index_def vdiv64_def
          float_eval upt_rec Let_def)
qed
subsection \<open>Boundary edges\<close>








definition block_positions :: "nat \<Rightarrow> nat \<Rightarrow> nat \<Rightarrow> nat list" where
  "block_positions i n nb = map (\<lambda>k. i + k * n) [0 ..< nb]"



lemma mod_block: "i < n \<Longrightarrow> (i + k * n) mod n = (i::nat)"
  by simp









subsection \<open>Partitions\<close>

definition expandable :: "int list \<Rightarrow> int \<Rightarrow> int \<Rightarrow> bool" where
  \<comment> \<open>the points whose edges a traversal from \<open>r\<close> follows: \<open>r\<close> and the points that are no inlet\<close>
  "expandable inlets r v \<longleftrightarrow> v = r \<or> v \<notin> set inlets"

definition reached_in_order :: "(int \<times> int) set \<Rightarrow> int list \<Rightarrow> int list \<Rightarrow> bool" where
  \<comment> \<open>every entry of \<open>sampling\<close> but the first is the end of an edge from an earlier entry
      that the traversal follows\<close>
  "reached_in_order E inlets sampling \<longleftrightarrow>
     (\<forall>i < length sampling. i = 0 \<or>
        (\<exists>i' < i. expandable inlets (hd sampling) (sampling ! i')
                   \<and> (sampling ! i', sampling ! i) \<in> E))"

definition trav_inv :: "(int \<times> int) set \<Rightarrow> int list \<Rightarrow> int \<Rightarrow> traversal \<Rightarrow> bool" where
  "trav_inv E inlets r st \<longleftrightarrow>
     length (sampling_indices st) = count st \<and> 1 \<le> count st
   \<and> new_edges2 st = [1 ..< count st]
   \<and> length (new_edges1 st) = length (new_edges2 st)
   \<and> (\<forall>e \<in> set (new_edges1 st). e < count st)
   \<and> (\<forall>j nj. map_of (numbering st) j = Some nj \<longrightarrow> nj < count st)
   \<and> hd (sampling_indices st) = r
   \<and> reached_in_order E inlets (sampling_indices st)
   \<and> set (points_to_visit st) \<subseteq> {v \<in> set (sampling_indices st). expandable inlets r v}"

lemma np_where_eq_iff: "k \<in> set (np_where_eq xs j) \<longleftrightarrow> k < length xs \<and> xs ! k = j"
  by (auto simp: np_where_eq_def)

lemma reached_in_order_snoc:
  assumes r: "reached_in_order E inlets s" and ne: "s \<noteq> []"
    and j: "j \<in> set s" and ex: "expandable inlets (hd s) j" and e: "(j, v) \<in> E"
  shows "reached_in_order E inlets (s @ [v])"
  unfolding reached_in_order_def
proof (intro allI impI)
  fix i assume i: "i < length (s @ [v])"
  have hd: "hd (s @ [v]) = hd s" using ne by simp
  show "i = 0 \<or> (\<exists>i' < i. expandable inlets (hd (s @ [v])) ((s @ [v]) ! i')
                   \<and> ((s @ [v]) ! i', (s @ [v]) ! i) \<in> E)"
  proof (cases "i < length s")
    case True
    with r have "i = 0 \<or> (\<exists>i' < i. expandable inlets (hd s) (s ! i') \<and> (s ! i', s ! i) \<in> E)"
      by (simp add: reached_in_order_def)
    then show ?thesis
    proof
      assume "i = 0" then show ?thesis ..
    next
      assume "\<exists>i' < i. expandable inlets (hd s) (s ! i') \<and> (s ! i', s ! i) \<in> E"
      then obtain i' where "i' < i" and "expandable inlets (hd s) (s ! i')"
        and "(s ! i', s ! i) \<in> E" by blast
      with True have "i' < i \<and> expandable inlets (hd (s @ [v])) ((s @ [v]) ! i')
                   \<and> ((s @ [v]) ! i', (s @ [v]) ! i) \<in> E"
        by (simp add: hd nth_append)
      then show ?thesis by blast
    qed
  next
    case False
    with i have il: "i = length s" by simp
    from j obtain i' where i': "i' < length s" and si: "s ! i' = j"
      by (auto simp: in_set_conv_nth)
    have "i' < i \<and> expandable inlets (hd (s @ [v])) ((s @ [v]) ! i')
                   \<and> ((s @ [v]) ! i', (s @ [v]) ! i) \<in> E"
      using i' si ex e il by (simp add: hd nth_append)
    then show ?thesis by blast
  qed
qed

lemma visit_edge_inv:
  assumes inv: "trav_inv (set (zip edges1 edges2)) inlets r st"
    and j: "j \<in> set (sampling_indices st)" and ex: "expandable inlets r j"
    and k: "iedg \<in> set (np_where_eq edges1 j)"
    and step: "visit_edge edges2 inlets j st iedg = Inr st'"
  shows "trav_inv (set (zip edges1 edges2)) inlets r st'
       \<and> set (sampling_indices st) \<subseteq> set (sampling_indices st')"
proof -
  let ?E = "set (zip edges1 edges2)"
  from inv [unfolded trav_inv_def] have len: "length (sampling_indices st) = count st"
    and c1: "1 \<le> count st" and e2: "new_edges2 st = [1 ..< count st]"
    and le: "length (new_edges1 st) = length (new_edges2 st)"
    and e1: "\<forall>e \<in> set (new_edges1 st). e < count st"
    and num: "\<forall>j nj. map_of (numbering st) j = Some nj \<longrightarrow> nj < count st"
    and hd: "hd (sampling_indices st) = r"
    and ord: "reached_in_order ?E inlets (sampling_indices st)"
    and tv: "set (points_to_visit st) \<subseteq> {v \<in> set (sampling_indices st). expandable inlets r v}"
    by blast+
  from k have k1: "iedg < length edges1" and kj: "edges1 ! iedg = j"
    by (simp_all add: np_where_eq_iff)
  from step obtain nxt where g: "getitem edges2 iedg = Inr nxt"
    by (cases "getitem edges2 iedg") (simp_all add: visit_edge_def)
  then have k2: "iedg < length edges2" and nx: "nxt = edges2 ! iedg"
    by (auto simp: getitem_def split: if_splits)
  have edge: "(j, nxt) \<in> ?E"
    using k1 k2 kj nx by (auto simp: in_set_zip intro!: exI [of _ iedg])
  define num' where "num' = AList.update nxt (count st) (numbering st)"
  have m': "map_of num' = (map_of (numbering st))(nxt \<mapsto> count st)"
    by (simp add: num'_def update_conv')
  have mn: "map_of num' nxt = Some (count st)" by (simp add: m')
  from step g mn obtain nj where nj: "map_of num' j = Some nj"
    and st': "st' = st\<lparr>numbering := num', count := count st + 1,
                      sampling_indices := sampling_indices st @ [nxt],
                      new_edges1 := new_edges1 st @ [nj],
                      new_edges2 := new_edges2 st @ [count st],
                      points_to_visit :=
                        (if nxt \<notin> set inlets then points_to_visit st @ [nxt]
                         else points_to_visit st)\<rparr>"
    by (cases "map_of num' j") (simp_all add: visit_edge_def Let_def num'_def)
  have njc: "nj < count st + 1"
  proof (cases "j = nxt")
    case True
    with nj mn show ?thesis by simp
  next
    case False
    with nj m' have "map_of (numbering st) j = Some nj" by simp
    with num show ?thesis by fastforce
  qed
  have ne: "sampling_indices st \<noteq> []" using len c1 by auto
  have ex': "expandable inlets (hd (sampling_indices st)) j" using ex hd by simp
  have "trav_inv ?E inlets r st'"
    unfolding trav_inv_def
  proof (intro conjI)
    show "length (sampling_indices st') = count st'" using len by (simp add: st')
    show "1 \<le> count st'" by (simp add: st')
    show "new_edges2 st' = [1 ..< count st']" using e2 c1 by (simp add: st')
    show "length (new_edges1 st') = length (new_edges2 st')" using le by (simp add: st')
    show "\<forall>e \<in> set (new_edges1 st'). e < count st'" using e1 njc by (auto simp: st')
    show "\<forall>j nj. map_of (numbering st') j = Some nj \<longrightarrow> nj < count st'"
    proof (intro allI impI)
      fix a na assume a: "map_of (numbering st') a = Some na"
      show "na < count st'"
      proof (cases "a = nxt")
        case True
        with a show ?thesis by (simp add: st' m')
      next
        case False
        with a have "map_of (numbering st) a = Some na" by (simp add: st' m')
        with num have "na < count st" by blast
        then show ?thesis by (simp add: st')
      qed
    qed
    show "hd (sampling_indices st') = r" using hd ne by (simp add: st')
    show "reached_in_order ?E inlets (sampling_indices st')"
      using reached_in_order_snoc [OF ord ne j ex' edge] by (simp add: st')
    show "set (points_to_visit st') \<subseteq> {v \<in> set (sampling_indices st'). expandable inlets r v}"
      using tv by (auto simp: st' expandable_def)
  qed
  moreover have "set (sampling_indices st) \<subseteq> set (sampling_indices st')" by (auto simp: st')
  ultimately show ?thesis ..
qed

lemma traverse_inv_aux:
  assumes "traverse edges1 edges2 inlets st = Some y"
  shows "\<forall>st'. y = Inr st' \<longrightarrow> trav_inv (set (zip edges1 edges2)) inlets r st
            \<longrightarrow> trav_inv (set (zip edges1 edges2)) inlets r st'"
proof (rule traverse.raw_induct [where P = "\<lambda>edges1 edges2 inlets st y.
          \<forall>st'. y = Inr st' \<longrightarrow> trav_inv (set (zip edges1 edges2)) inlets r st
            \<longrightarrow> trav_inv (set (zip edges1 edges2)) inlets r st'", OF _ assms])
  fix trav edges1 edges2 inlets st y
  assume ih: "\<And>edges1 edges2 inlets st y. trav edges1 edges2 inlets st = Some y \<Longrightarrow>
          \<forall>st'. y = Inr st' \<longrightarrow> trav_inv (set (zip edges1 edges2)) inlets r st
            \<longrightarrow> trav_inv (set (zip edges1 edges2)) inlets r st'"
    and body: "(case points_to_visit st of
        [] \<Rightarrow> Some (Inr st)
      | j # rest \<Rightarrow>
          (case for_loop (visit_edge edges2 inlets j) (st\<lparr>points_to_visit := rest\<rparr>)
                  (np_where_eq edges1 j) of
             Inl e \<Rightarrow> Some (Inl e)
           | Inr st' \<Rightarrow> trav edges1 edges2 inlets st')) = Some y"
  let ?E = "set (zip edges1 edges2)"
  show "\<forall>st'. y = Inr st' \<longrightarrow> trav_inv ?E inlets r st \<longrightarrow> trav_inv ?E inlets r st'"
  proof (intro allI impI)
    fix st' assume y: "y = Inr st'" and inv: "trav_inv ?E inlets r st"
    show "trav_inv ?E inlets r st'"
    proof (cases "points_to_visit st")
      case Nil
      with body y inv show ?thesis by simp
    next
      case (Cons j rest)
      define st0 where "st0 = st\<lparr>points_to_visit := rest\<rparr>"
      from inv [unfolded trav_inv_def] Cons
      have jin: "j \<in> set (sampling_indices st)" and jex: "expandable inlets r j"
        and rsub: "set rest \<subseteq> {v \<in> set (sampling_indices st). expandable inlets r v}"
        by auto
      have inv0: "trav_inv ?E inlets r st0"
        using inv rsub unfolding trav_inv_def st0_def by simp
      from body Cons y obtain st1 where
        loop: "for_loop (visit_edge edges2 inlets j) st0 (np_where_eq edges1 j) = Inr st1"
        and rec: "trav edges1 edges2 inlets st1 = Some (Inr st')"
        by (auto simp: st0_def split: sum.splits)
      have "trav_inv ?E inlets r st1 \<and> j \<in> set (sampling_indices st1)"
      proof (rule for_loop_inv [OF loop, where P = "\<lambda>t. trav_inv ?E inlets r t
                                                    \<and> j \<in> set (sampling_indices t)"])
        show "trav_inv ?E inlets r st0 \<and> j \<in> set (sampling_indices st0)"
          using inv0 jin by (simp add: st0_def)
      next
        fix x t t'
        assume x: "x \<in> set (np_where_eq edges1 j)"
          and t: "trav_inv ?E inlets r t \<and> j \<in> set (sampling_indices t)"
          and b: "visit_edge edges2 inlets j t x = Inr t'"
        from t have ti: "trav_inv ?E inlets r t" and tj: "j \<in> set (sampling_indices t)"
          by blast+
        from visit_edge_inv [OF ti tj jex x b] tj
        show "trav_inv ?E inlets r t' \<and> j \<in> set (sampling_indices t')" by blast
      qed
      then have inv1: "trav_inv ?E inlets r st1" ..
      from ih [OF rec] inv1 show ?thesis by blast
    qed
  qed
qed

lemma traverse_inv:
  "traverse edges1 edges2 inlets st = Some (Inr st') \<Longrightarrow>
   trav_inv (set (zip edges1 edges2)) inlets r st \<Longrightarrow>
   trav_inv (set (zip edges1 edges2)) inlets r st'"
  using traverse_inv_aux by blast

lemma create_partition_inv:
  assumes "create_partition edges1 edges2 r inlets = Some (Inr (pe1, pe2, sampling))"
  shows "length pe1 = length pe2 \<and> pe2 = [1 ..< length sampling]
       \<and> (\<forall>e \<in> set pe1. e < length sampling)
       \<and> sampling \<noteq> [] \<and> hd sampling = r
       \<and> reached_in_order (set (zip edges1 edges2)) inlets sampling"
proof -
  let ?E = "set (zip edges1 edges2)"
  let ?st0 = "\<lparr>sampling_indices = [r], new_edges1 = [], new_edges2 = [],
              points_to_visit = [r], count = 1, numbering = [(r, 0)]\<rparr>"
  from assms obtain st where t: "traverse edges1 edges2 inlets ?st0 = Some (Inr st)"
    and res: "pe1 = new_edges1 st" "pe2 = new_edges2 st" "sampling = sampling_indices st"
    by (auto simp: create_partition_def split: option.splits sum.splits)
  have "trav_inv ?E inlets r ?st0"
    by (simp add: trav_inv_def reached_in_order_def expandable_def)
  from traverse_inv [OF t this] have inv: "trav_inv ?E inlets r st" .
  from inv [unfolded trav_inv_def] have len: "length (sampling_indices st) = count st"
    and c1: "1 \<le> count st" and e2: "new_edges2 st = [1 ..< count st]"
    and le: "length (new_edges1 st) = length (new_edges2 st)"
    and e1: "\<forall>e \<in> set (new_edges1 st). e < count st"
    and hd: "hd (sampling_indices st) = r"
    and ord: "reached_in_order ?E inlets (sampling_indices st)"
    by blast+
  from len c1 have "sampling_indices st \<noteq> []" by auto
  with len e2 le e1 hd ord show ?thesis by (simp add: res)
qed

lemma np_take_length: "np_take xs idxs = Inr ys \<Longrightarrow> length ys = length idxs"
  by (induction idxs arbitrary: ys) (auto split: sum.splits)

definition good_partition :: "(int \<times> int) set \<Rightarrow> int list \<Rightarrow> partition \<Rightarrow> bool" where
  "good_partition E inlets p \<longleftrightarrow>
     length (part_points p) = length (part_sampling_indices p)
   \<and> length (part_edges1 p) = length (part_edges2 p)
   \<and> 2 \<le> length (part_edges1 p)
   \<and> part_edges2 p = [1 ..< length (part_sampling_indices p)]
   \<and> (\<forall>e \<in> set (part_edges1 p). e < length (part_sampling_indices p))
   \<and> part_sampling_indices p \<noteq> []
   \<and> hd (part_sampling_indices p) \<in> set inlets
   \<and> reached_in_order E inlets (part_sampling_indices p)"

lemma build_partitions_good:
  assumes "build_partitions pts pdata e1 e2 inlets acc is = Some (Inr partitions)"
    and "\<forall>p \<in> set acc. good_partition (set (zip e1 e2)) inlets p"
    and "\<forall>i \<in> set is. i < length inlets"
  shows "\<forall>p \<in> set partitions. good_partition (set (zip e1 e2)) inlets p"
  using assms
proof (induction "is" arbitrary: acc)
  case Nil
  then show ?case by simp
next
  case (Cons ip rest)
  let ?E = "set (zip e1 e2)"
  from Cons.prems(1) obtain pe1 pe2 sampling ppoints ppd where
    cp: "create_partition e1 e2 (inlets ! ip) inlets = Some (Inr (pe1, pe2, sampling))"
    and tk: "np_take pts sampling = Inr ppoints"
    and rest: "build_partitions pts pdata e1 e2 inlets
                 (if length pe1 > 1
                  then acc @ [\<lparr>part_edges1 = pe1, part_edges2 = pe2, part_points = ppoints,
                               part_sampling_indices = sampling, part_point_data = ppd\<rparr>]
                  else acc) rest = Some (Inr partitions)"
    by (auto simp: Let_def split: option.splits sum.splits prod.splits)
  from create_partition_inv [OF cp] have le: "length pe1 = length pe2"
    and e2: "pe2 = [1 ..< length sampling]" and e1: "\<forall>e \<in> set pe1. e < length sampling"
    and ne: "sampling \<noteq> []" and hd: "hd sampling = inlets ! ip"
    and ord: "reached_in_order ?E inlets sampling" by blast+
  from Cons.prems(3) have "inlets ! ip \<in> set inlets" by simp
  with hd have hin: "hd sampling \<in> set inlets" by simp
  have new: "length pe1 > 1 \<Longrightarrow>
        good_partition ?E inlets \<lparr>part_edges1 = pe1, part_edges2 = pe2, part_points = ppoints,
                               part_sampling_indices = sampling, part_point_data = ppd\<rparr>"
    using np_take_length [OF tk] le e2 e1 ne hin ord by (simp add: good_partition_def)
  have acc': "\<forall>p \<in> set (if length pe1 > 1
                  then acc @ [\<lparr>part_edges1 = pe1, part_edges2 = pe2, part_points = ppoints,
                               part_sampling_indices = sampling, part_point_data = ppd\<rparr>]
                  else acc). good_partition ?E inlets p"
    using Cons.prems(2) new by auto
  from Cons.prems(3) have "\<forall>i \<in> set rest. i < length inlets" by simp
  from Cons.IH [OF rest acc' this] show ?case .
qed

lemma overlap_is_inlet:
  assumes sp: "\<And>u u' v. (u, v) \<in> E \<Longrightarrow> (u', v) \<in> E \<Longrightarrow> u = u'"
    and o1: "reached_in_order E inlets s1" and o2: "reached_in_order E inlets s2"
    and ne1: "s1 \<noteq> []" and ne2: "s2 \<noteq> []"
    and r1: "hd s1 \<in> set inlets" and r2: "hd s2 \<in> set inlets"
    and diff: "hd s1 \<noteq> hd s2"
  shows "i < length s1 \<Longrightarrow> s1 ! i \<in> set s2 \<Longrightarrow> s1 ! i \<in> set inlets"
proof (induction i rule: less_induct)
  case (less i)
  show ?case
  proof (rule ccontr)
    assume notin: "s1 ! i \<notin> set inlets"
    have "i \<noteq> 0"
    proof
      assume "i = 0"
      with ne1 have "s1 ! i = hd s1" by (simp add: hd_conv_nth)
      with r1 notin show False by simp
    qed
    with o1 less.prems(1) obtain i' where i': "i' < i"
      and x1: "expandable inlets (hd s1) (s1 ! i')" and e1: "(s1 ! i', s1 ! i) \<in> E"
      unfolding reached_in_order_def by blast
    from less.prems(2) obtain k where k: "k < length s2" and sk: "s2 ! k = s1 ! i"
      by (auto simp: in_set_conv_nth)
    have "k \<noteq> 0"
    proof
      assume "k = 0"
      with ne2 have "s2 ! k = hd s2" by (simp add: hd_conv_nth)
      with r2 notin sk show False by simp
    qed
    with o2 k obtain k' where k': "k' < k"
      and x2: "expandable inlets (hd s2) (s2 ! k')" and e2: "(s2 ! k', s2 ! k) \<in> E"
      unfolding reached_in_order_def by blast
    from sp [OF e1] e2 sk have same: "s1 ! i' = s2 ! k'" by simp
    from k' k have "s2 ! k' \<in> set s2" by simp
    with same have in2: "s1 ! i' \<in> set s2" by simp
    from i' less.prems(1) have "i' < length s1" by simp
    from less.IH [OF i' this in2] have uin: "s1 ! i' \<in> set inlets" .
    from x1 uin have "s1 ! i' = hd s1" by (simp add: expandable_def)
    moreover from x2 uin same have "s1 ! i' = hd s2" by (simp add: expandable_def)
    ultimately show False using diff by simp
  qed
qed

text \<open>
  Claim C7, as the code has it. When \<open>create_partitions\<close> returns, every partition has a
  row of \<open>points\<close> for every entry of its \<open>sampling_indices\<close>, its two edge arrays have the
  same length, and every end of a local edge is an index below that number of points. A
  traversal adds the chosen root it reaches to its own partition before it stops there, so
  two partitions need not be disjoint. When no point is the end of edges from two different
  points, two partitions with different roots have only chosen roots in common.
\<close>

theorem create_partitions_share_only_roots:
  assumes "create_partitions rnd smp pts pdata e1 e2 max_num_partitions = Some (Inr partitions)"
  shows "\<exists>bif_id inlets.
           map_of pdata ''BifurcationId'' = Some bif_id
         \<and> choose_inlets rnd smp bif_id e1 e2 max_num_partitions = Some (Inr inlets)
         \<and> (\<forall>p \<in> set partitions.
               length (part_points p) = length (part_sampling_indices p)
             \<and> length (part_edges1 p) = length (part_edges2 p)
             \<and> (\<forall>e \<in> set (part_edges1 p) \<union> set (part_edges2 p).
                   e < length (part_sampling_indices p))
             \<and> part_sampling_indices p \<noteq> []
             \<and> hd (part_sampling_indices p) \<in> set inlets)
         \<and> (single_parent e1 e2 \<longrightarrow>
              (\<forall>p \<in> set partitions. \<forall>q \<in> set partitions.
                 hd (part_sampling_indices p) \<noteq> hd (part_sampling_indices q) \<longrightarrow>
                 set (part_sampling_indices p) \<inter> set (part_sampling_indices q) \<subseteq> set inlets))"
proof -
  let ?E = "set (zip e1 e2)"
  from assms obtain bif_id inlets where
    b: "map_of pdata ''BifurcationId'' = Some bif_id"
    and c: "choose_inlets rnd smp bif_id e1 e2 max_num_partitions = Some (Inr inlets)"
    and bp: "build_partitions pts pdata e1 e2 inlets [] [0 ..< length inlets] = Some (Inr partitions)"
    by (auto simp: create_partitions_def split: option.splits sum.splits)
  have good: "\<forall>p \<in> set partitions. good_partition ?E inlets p"
    by (rule build_partitions_good [OF bp]) simp_all
  have local: "\<forall>p \<in> set partitions.
               length (part_points p) = length (part_sampling_indices p)
             \<and> length (part_edges1 p) = length (part_edges2 p)
             \<and> (\<forall>e \<in> set (part_edges1 p) \<union> set (part_edges2 p).
                   e < length (part_sampling_indices p))
             \<and> part_sampling_indices p \<noteq> []
             \<and> hd (part_sampling_indices p) \<in> set inlets"
  proof
    fix p assume "p \<in> set partitions"
    with good have g: "good_partition ?E inlets p" ..
    then have "\<forall>e \<in> set (part_edges2 p). e < length (part_sampling_indices p)"
      by (simp add: good_partition_def)
    with g show "length (part_points p) = length (part_sampling_indices p)
             \<and> length (part_edges1 p) = length (part_edges2 p)
             \<and> (\<forall>e \<in> set (part_edges1 p) \<union> set (part_edges2 p).
                   e < length (part_sampling_indices p))
             \<and> part_sampling_indices p \<noteq> []
             \<and> hd (part_sampling_indices p) \<in> set inlets"
      unfolding good_partition_def by blast
  qed
  have share: "single_parent e1 e2 \<longrightarrow>
              (\<forall>p \<in> set partitions. \<forall>q \<in> set partitions.
                 hd (part_sampling_indices p) \<noteq> hd (part_sampling_indices q) \<longrightarrow>
                 set (part_sampling_indices p) \<inter> set (part_sampling_indices q) \<subseteq> set inlets)"
  proof (intro impI ballI subsetI)
    fix p q v
    assume sp: "single_parent e1 e2" and p: "p \<in> set partitions" and q: "q \<in> set partitions"
      and d: "hd (part_sampling_indices p) \<noteq> hd (part_sampling_indices q)"
      and v: "v \<in> set (part_sampling_indices p) \<inter> set (part_sampling_indices q)"
    from sp have par: "\<And>u u' w. (u, w) \<in> ?E \<Longrightarrow> (u', w) \<in> ?E \<Longrightarrow> u = u'"
      unfolding single_parent_def by blast
    from good p have gp: "good_partition ?E inlets p" ..
    from good q have gq: "good_partition ?E inlets q" ..
    from v obtain i where i: "i < length (part_sampling_indices p)"
      and vi: "part_sampling_indices p ! i = v" by (auto simp: in_set_conv_nth)
    from v vi have inq: "part_sampling_indices p ! i \<in> set (part_sampling_indices q)" by simp
    have "part_sampling_indices p ! i \<in> set inlets"
    proof (rule overlap_is_inlet [where E = "?E" and inlets = inlets, OF _ _ _ _ _ _ _ d i inq])
      show "\<And>u u' w. (u, w) \<in> ?E \<Longrightarrow> (u', w) \<in> ?E \<Longrightarrow> u = u'" by (rule par)
      show "reached_in_order ?E inlets (part_sampling_indices p)"
        using gp by (simp add: good_partition_def)
      show "reached_in_order ?E inlets (part_sampling_indices q)"
        using gq by (simp add: good_partition_def)
      show "part_sampling_indices p \<noteq> []" using gp by (simp add: good_partition_def)
      show "part_sampling_indices q \<noteq> []" using gq by (simp add: good_partition_def)
      show "hd (part_sampling_indices p) \<in> set inlets" using gp by (simp add: good_partition_def)
      show "hd (part_sampling_indices q) \<in> set inlets" using gq by (simp add: good_partition_def)
    qed
    with vi show "v \<in> set inlets" by simp
  qed
  from b c local share show ?thesis by blast
qed

subsection \<open>create_partitions on a line of five points\<close>

text \<open>
  Five points on a line with the edges \<open>0 \<rightarrow> 1 \<rightarrow> 2 \<rightarrow> 3 \<rightarrow> 4\<close>; the points 1 and 3 are in
  junctions. With two partitions asked for, the inlets are 0 and the one point
  \<open>randint(2, 3)\<close> can give, 2.
\<close>

lemmas partition_eval = create_partitions_def choose_inlets_def next_junction.simps traverse.simps
  create_partition_def visit_edge_def np_where_eq_def getitem_def np_get_def np_index_def
  randint_def slice_point_data_def upt_rec Let_def

lemma choose_inlets_line5:
  "choose_inlets (\<lambda>k. 0) (\<lambda>k. 0) [- 1, 0, - 1, 1, - 1] [0, 1, 2, 3] [1, 2, 3, 4] 2
     = Some (Inr [0, 2])"
  by (simp add: partition_eval)

lemma create_partition_line5_first:
  "create_partition [0, 1, 2, 3] [1, 2, 3, 4] 0 [0, 2] = Some (Inr ([0, 1], [1, 2], [0, 1, 2]))"
  by (simp add: partition_eval)

lemma create_partition_line5_second:
  "create_partition [0, 1, 2, 3] [1, 2, 3, 4] 2 [0, 2] = Some (Inr ([0, 1], [1, 2], [2, 3, 4]))"
  by (simp add: partition_eval)

lemma create_partitions_line5:
  "create_partitions (\<lambda>k. 0) (\<lambda>k. 0)
     [(0, 0, 0), (1, 0, 0), (2, 0, 0), (3, 0, 0), (4, 0, 0)]
     [(''BifurcationId'', [- 1, 0, - 1, 1, - 1])] [0, 1, 2, 3] [1, 2, 3, 4] 2
   = Some (Inr [\<lparr>part_edges1 = [0, 1], part_edges2 = [1, 2],
                  part_points = [(0, 0, 0), (1, 0, 0), (2, 0, 0)],
                  part_sampling_indices = [0, 1, 2],
                  part_point_data = [(''BifurcationId'', [- 1, 0, - 1])]\<rparr>,
                \<lparr>part_edges1 = [0, 1], part_edges2 = [1, 2],
                  part_points = [(2, 0, 0), (3, 0, 0), (4, 0, 0)],
                  part_sampling_indices = [2, 3, 4],
                  part_point_data = [(''BifurcationId'', [- 1, 1, - 1])]\<rparr>])"
  by (simp add: choose_inlets_line5 create_partition_line5_first create_partition_line5_second
        create_partitions_def slice_point_data_def np_get_def np_index_def upt_rec)

lemma single_parent_line5: "single_parent [0, 1, 2, 3] [1, 2, 3, 4]"
  by (simp add: single_parent_def)

theorem create_partitions_share_only_roots_witness:
  "create_partitions (\<lambda>k. 0) (\<lambda>k. 0)
     [(0, 0, 0), (1, 0, 0), (2, 0, 0), (3, 0, 0), (4, 0, 0)]
     [(''BifurcationId'', [- 1, 0, - 1, 1, - 1])] [0, 1, 2, 3] [1, 2, 3, 4] 2
   = Some (Inr [\<lparr>part_edges1 = [0, 1], part_edges2 = [1, 2],
                  part_points = [(0, 0, 0), (1, 0, 0), (2, 0, 0)],
                  part_sampling_indices = [0, 1, 2],
                  part_point_data = [(''BifurcationId'', [- 1, 0, - 1])]\<rparr>,
                \<lparr>part_edges1 = [0, 1], part_edges2 = [1, 2],
                  part_points = [(2, 0, 0), (3, 0, 0), (4, 0, 0)],
                  part_sampling_indices = [2, 3, 4],
                  part_point_data = [(''BifurcationId'', [- 1, 1, - 1])]\<rparr>])
   \<and> single_parent [0, 1, 2, 3] [1, 2, 3, 4]
   \<and> choose_inlets (\<lambda>k. 0) (\<lambda>k. 0) [- 1, 0, - 1, 1, - 1] [0, 1, 2, 3] [1, 2, 3, 4] 2
       = Some (Inr [0, 2])
   \<and> set [0, 1, 2 :: int] \<inter> set [2, 3, 4] \<subseteq> set [0, 2]
   \<and> length [(0::real, 0::real, 0::real), (1, 0, 0), (2, 0, 0)] = length [0, 1, 2 :: int]
   \<and> \<not> (\<exists>e \<in> set [0, 1 :: nat] \<union> set [1, 2]. \<not> e < length [0, 1, 2 :: int])"
proof -
  let ?p = "\<lparr>part_edges1 = [0, 1], part_edges2 = [1, 2],
                  part_points = [(0, 0, 0), (1, 0, 0), (2, 0, 0)],
                  part_sampling_indices = [0, 1, 2],
                  part_point_data = [(''BifurcationId'', [- 1, 0, - 1])]\<rparr>"
  let ?q = "\<lparr>part_edges1 = [0, 1], part_edges2 = [1, 2],
                  part_points = [(2, 0, 0), (3, 0, 0), (4, 0, 0)],
                  part_sampling_indices = [2, 3, 4],
                  part_point_data = [(''BifurcationId'', [- 1, 1, - 1])]\<rparr>"
  from create_partitions_share_only_roots [OF create_partitions_line5]
  obtain bif_id inlets where
    b: "map_of [(''BifurcationId'', [- 1, 0, - 1, 1, - 1 :: real])] ''BifurcationId'' = Some bif_id"
    and c: "choose_inlets (\<lambda>k. 0) (\<lambda>k. 0) bif_id [0, 1, 2, 3] [1, 2, 3, 4] 2 = Some (Inr inlets)"
    and local: "\<forall>p \<in> set [?p, ?q].
               length (part_points p) = length (part_sampling_indices p)
             \<and> length (part_edges1 p) = length (part_edges2 p)
             \<and> (\<forall>e \<in> set (part_edges1 p) \<union> set (part_edges2 p).
                   e < length (part_sampling_indices p))
             \<and> part_sampling_indices p \<noteq> []
             \<and> hd (part_sampling_indices p) \<in> set inlets"
    and share: "single_parent [0, 1, 2, 3] [1, 2, 3, 4] \<longrightarrow>
              (\<forall>p \<in> set [?p, ?q]. \<forall>q \<in> set [?p, ?q].
                 hd (part_sampling_indices p) \<noteq> hd (part_sampling_indices q) \<longrightarrow>
                 set (part_sampling_indices p) \<inter> set (part_sampling_indices q) \<subseteq> set inlets)"
    by blast
  from b have "bif_id = [- 1, 0, - 1, 1, - 1]" by simp
  with c choose_inlets_line5 have i: "inlets = [0, 2]" by simp
  from share single_parent_line5
  have s: "hd (part_sampling_indices ?p) \<noteq> hd (part_sampling_indices ?q) \<longrightarrow>
        set (part_sampling_indices ?p) \<inter> set (part_sampling_indices ?q) \<subseteq> set inlets"
    by simp
  have "hd (part_sampling_indices ?p) \<noteq> hd (part_sampling_indices ?q)" by simp
  with s have "set (part_sampling_indices ?p) \<inter> set (part_sampling_indices ?q) \<subseteq> set inlets"
    by blast
  with i have s': "set [0, 1, 2 :: int] \<inter> set [2, 3, 4] \<subseteq> set [0, 2]" by simp
  from local have "length (part_points ?p) = length (part_sampling_indices ?p)
     \<and> (\<forall>e \<in> set (part_edges1 ?p) \<union> set (part_edges2 ?p). e < length (part_sampling_indices ?p))"
    by simp
  then have l: "length [(0::real, 0::real, 0::real), (1, 0, 0), (2, 0, 0)] = length [0, 1, 2 :: int]
   \<and> \<not> (\<exists>e \<in> set [0, 1 :: nat] \<union> set [1, 2]. \<not> e < length [0, 1, 2 :: int])"
    by simp
  from create_partitions_line5 single_parent_line5 choose_inlets_line5 s' l
  show ?thesis by blast
qed

text \<open>
  The claim as stated has the point sets of two partitions disjoint. On the line of five
  points the traversal from 0 appends the inlet 2 to its \<open>sampling_indices\<close> and stops there;
  the traversal from 2 starts with it. The point 2 is in both partitions.
\<close>

theorem create_partitions_overlap_counterexample:
  "create_partitions (\<lambda>k. 0) (\<lambda>k. 0)
     [(0, 0, 0), (1, 0, 0), (2, 0, 0), (3, 0, 0), (4, 0, 0)]
     [(''BifurcationId'', [- 1, 0, - 1, 1, - 1])] [0, 1, 2, 3] [1, 2, 3, 4] 2
   = Some (Inr [\<lparr>part_edges1 = [0, 1], part_edges2 = [1, 2],
                  part_points = [(0, 0, 0), (1, 0, 0), (2, 0, 0)],
                  part_sampling_indices = [0, 1, 2],
                  part_point_data = [(''BifurcationId'', [- 1, 0, - 1])]\<rparr>,
                \<lparr>part_edges1 = [0, 1], part_edges2 = [1, 2],
                  part_points = [(2, 0, 0), (3, 0, 0), (4, 0, 0)],
                  part_sampling_indices = [2, 3, 4],
                  part_point_data = [(''BifurcationId'', [- 1, 1, - 1])]\<rparr>])
   \<and> 2 \<in> set [0, 1, 2 :: int] \<inter> set [2, 3, 4]"
  using create_partitions_line5 by simp

text \<open>
  \<open>random.sample\<close> draws from all points outside junctions, the inlets already chosen among
  them. On three points without a junction it can draw the point 0 again; the two partitions
  are then the same.
\<close>

lemma create_partitions_repeated_root:
  "create_partitions (\<lambda>k. 0) (\<lambda>k. 0) [(0, 0, 0), (1, 0, 0), (2, 0, 0)]
     [(''BifurcationId'', [- 1, - 1, - 1])] [0, 1] [1, 2] 2
   = Some (Inr [\<lparr>part_edges1 = [0, 1], part_edges2 = [1, 2],
                  part_points = [(0, 0, 0), (1, 0, 0), (2, 0, 0)],
                  part_sampling_indices = [0, 1, 2],
                  part_point_data = [(''BifurcationId'', [- 1, - 1, - 1])]\<rparr>,
                \<lparr>part_edges1 = [0, 1], part_edges2 = [1, 2],
                  part_points = [(0, 0, 0), (1, 0, 0), (2, 0, 0)],
                  part_sampling_indices = [0, 1, 2],
                  part_point_data = [(''BifurcationId'', [- 1, - 1, - 1])]\<rparr>])"
proof -
  have c: "choose_inlets (\<lambda>k. 0) (\<lambda>k. 0) [- 1, - 1, - 1] [0, 1] [1, 2] 2 = Some (Inr [0, 0])"
    by (simp add: partition_eval)
  have p: "create_partition [0, 1] [1, 2] 0 [0, 0] = Some (Inr ([0, 1], [1, 2], [0, 1, 2]))"
    by (simp add: partition_eval)
  show ?thesis
    by (simp add: c p create_partitions_def slice_point_data_def np_get_def np_index_def upt_rec)
qed

end
